theory Spec2Isabelle
  imports Main "HOL-Library.Multiset" "HOL-Library.Sublist"
begin

section \<open>Python text primitives used by the flashcard generator\<close>

text \<open>
  A Python \<open>str\<close> is a sequence of Unicode code points. The script compares characters
  with the kana blocks (code points above U+3000), so a character is modelled by its code
  point, a natural number, and a string by the list of its code points. An ASCII literal of
  the source is written \<open>ustr ''...''\<close>.
\<close>

type_synonym uchar = nat
type_synonym ustring = "uchar list"

definition ustr :: "string \<Rightarrow> ustring" where
  "ustr s = map of_char s"

text \<open>The newline character \<open>"\n"\<close> and the comment marker \<open>"#"\<close>.\<close>

definition NL :: uchar where
  "NL = 10"

definition HASH :: uchar where
  "HASH = 35"

text \<open>
  \<open>str.isspace\<close> for one character: the fixed whitespace table of CPython, which
  \<open>str.strip()\<close> and \<open>str.split()\<close> (both without argument) use.
\<close>

definition py_isspace :: "uchar \<Rightarrow> bool" where
  "py_isspace c =
     ((9 \<le> c \<and> c \<le> 13) \<or> (28 \<le> c \<and> c \<le> 32) \<or> c = 133 \<or> c = 160 \<or> c = 5760 \<or>
      (8192 \<le> c \<and> c \<le> 8202) \<or> c = 8232 \<or> c = 8233 \<or> c = 8239 \<or> c = 8287 \<or> c = 12288)"

definition py_lstrip :: "ustring \<Rightarrow> ustring" where
  "py_lstrip s = dropWhile py_isspace s"

definition py_rstrip :: "ustring \<Rightarrow> ustring" where
  "py_rstrip s = rev (dropWhile py_isspace (rev s))"

definition py_strip :: "ustring \<Rightarrow> ustring" where
  "py_strip s = py_lstrip (py_rstrip s)"

text \<open>
  \<open>s.split()\<close>: the maximal runs of non-whitespace characters, in order. The first
  argument is the token being read, reversed.
\<close>

fun split_acc :: "ustring \<Rightarrow> ustring \<Rightarrow> ustring list" where
  "split_acc tok [] = (if tok = [] then [] else [rev tok])"
| "split_acc tok (c # cs) =
     (if py_isspace c then (if tok = [] then split_acc [] cs else rev tok # split_acc [] cs)
      else split_acc (c # tok) cs)"

definition py_split :: "ustring \<Rightarrow> ustring list" where
  "py_split s = split_acc [] s"

text \<open>\<open>s.split("\n")\<close>: the pieces between newline characters, empty pieces included.\<close>

fun split_nl :: "ustring \<Rightarrow> ustring list" where
  "split_nl [] = [[]]"
| "split_nl (c # cs) =
     (if c = NL then [] # split_nl cs
      else (case split_nl cs of [] \<Rightarrow> [[c]] | l # ls \<Rightarrow> (c # l) # ls))"

text \<open>
  \<open>f.readlines()\<close> on a text file whose content is the given string: the lines, each with
  its terminating newline, the last one without when the content does not end in a newline.
  \<open>f.writelines(lines)\<close> writes their concatenation.
\<close>

fun readlines :: "ustring \<Rightarrow> ustring list" where
  "readlines [] = []"
| "readlines (c # cs) =
     (if c = NL then [c] # readlines cs
      else (case readlines cs of [] \<Rightarrow> [[c]] | l # ls \<Rightarrow> (c # l) # ls))"

definition writelines :: "ustring list \<Rightarrow> ustring" where
  "writelines ls = concat ls"

text \<open>
  \<open>random.shuffle(x)\<close> is the Fisher-Yates loop
  \<open>for i in reversed(range(1, len(x))): j = randbelow(i + 1); x[i], x[j] = x[j], x[i]\<close>.
  The random source is a function giving the raw draw of step \<open>i\<close>.
\<close>

definition swap :: "nat \<Rightarrow> nat \<Rightarrow> 'a list \<Rightarrow> 'a list" where
  "swap i j xs = xs[i := xs ! j, j := xs ! i]"

fun shuffle_steps :: "(nat \<Rightarrow> nat) \<Rightarrow> nat \<Rightarrow> 'a list \<Rightarrow> 'a list" where
  "shuffle_steps rnd 0 xs = xs"
| "shuffle_steps rnd (Suc i) xs = shuffle_steps rnd i (swap (Suc i) (rnd (Suc i) mod (Suc i + 1)) xs)"

definition py_shuffle :: "(nat \<Rightarrow> nat) \<Rightarrow> 'a list \<Rightarrow> 'a list" where
  "py_shuffle rnd xs = shuffle_steps rnd (length xs - 1) xs"

text \<open>
  \<open>list(set(words))\<close>: the distinct words in the iteration order of the set, which the
  hash seed decides. Any order can come out; it is modelled as a permutation of the
  distinct words chosen by a second source of draws.
\<close>

definition py_list_of_set :: "(nat \<Rightarrow> nat) \<Rightarrow> 'a list \<Rightarrow> 'a list" where
  "py_list_of_set ord xs = py_shuffle ord (remdups xs)"

section \<open>Constants of the script\<close>

definition BASIC_PROMPT_PATH :: string where
  "BASIC_PROMPT_PATH = ''basic_prompt.txt''"

definition CLOZE_PROMPT_PATH :: string where
  "CLOZE_PROMPT_PATH = ''cloze_prompt.txt''"

definition CLOZE_EXAMPLE_SENTENCE_FIELD :: string where
  "CLOZE_EXAMPLE_SENTENCE_FIELD = ''Expression''"

definition CLOZE_ENGLISH_FIELD :: string where
  "CLOZE_ENGLISH_FIELD = ''Extra''"

definition BASIC_JAPANESE_FIELD :: string where
  "BASIC_JAPANESE_FIELD = ''Expression''"

definition BASIC_ENGLISH_FIELD :: string where
  "BASIC_ENGLISH_FIELD = ''Meaning''"

text \<open>The value of \<open>_NEW_WORDS\<close> in the source: a single newline.\<close>

definition NEW_WORDS :: ustring where
  "NEW_WORDS = [NL]"

section \<open>Kana classification and prompt selection\<close>

definition is_kana :: "ustring \<Rightarrow> bool" where
  "is_kana s = list_all (\<lambda>c. (0x3040 \<le> c \<and> c \<le> 0x309F) \<or> (0x30A0 \<le> c \<and> c \<le> 0x30FF)) s"

text \<open>The first statement of \<open>_request_flashcards_from_llm\<close>: the template file of a word.\<close>

definition prompt_path :: "ustring \<Rightarrow> string" where
  "prompt_path word = (if is_kana word then BASIC_PROMPT_PATH else CLOZE_PROMPT_PATH)"

text \<open>The two Unicode blocks, as the specification names them.\<close>

definition hiragana_block :: "uchar set" where
  "hiragana_block = {0x3040..0x309F}"

definition katakana_block :: "uchar set" where
  "katakana_block = {0x30A0..0x30FF}"

section \<open>Errors\<close>

datatype error =
    IndexError
  | ValueError
  | EOFError
  | RequestError
  | ResponseError

section \<open>New-word ingestion\<close>

text \<open>\<open>line.strip().split()[0]\<close>; indexing an empty list raises.\<close>

definition first_token :: "ustring \<Rightarrow> error + ustring" where
  "first_token line = (case py_split (py_strip line) of [] \<Rightarrow> Inl IndexError | t # _ \<Rightarrow> Inr t)"

definition startswith_hash :: "ustring \<Rightarrow> bool" where
  "startswith_hash s = (case s of [] \<Rightarrow> False | c # _ \<Rightarrow> c = HASH)"

text \<open>The list comprehension of \<open>_get_new_words_from_multiline_string\<close>.\<close>

fun tokens_of_lines :: "ustring list \<Rightarrow> error + ustring list" where
  "tokens_of_lines [] = Inr []"
| "tokens_of_lines (line # lines) =
     (if py_strip line \<noteq> [] \<and> \<not> startswith_hash (py_strip line) then
        (case first_token line of
           Inl e \<Rightarrow> Inl e
         | Inr t \<Rightarrow> (case tokens_of_lines lines of Inl e \<Rightarrow> Inl e | Inr ts \<Rightarrow> Inr (t # ts)))
      else tokens_of_lines lines)"

definition get_new_words_from_multiline_string ::
  "(nat \<Rightarrow> nat) \<Rightarrow> (nat \<Rightarrow> nat) \<Rightarrow> ustring \<Rightarrow> error + ustring list" where
  "get_new_words_from_multiline_string ord rnd word_string =
     (case tokens_of_lines (split_nl word_string) of
        Inl e \<Rightarrow> Inl e
      | Inr words \<Rightarrow> Inr (py_shuffle rnd (py_list_of_set ord words)))"

section \<open>The pending-word file\<close>

text \<open>
  The three word lists are text files; each is modelled by its content, the string that
  \<open>f.read()\<close> returns (the text after decoding, with line endings as Python presents them:
  a single newline character). The files are taken to exist and to be readable and
  writable.
\<close>

definition load_pending_words :: "ustring \<Rightarrow> ustring list" where
  "load_pending_words pending = split_nl pending"

text \<open>
  \<open>_append_new_pending_words_to_file\<close>, as a function of the file's content: every
  \<open>f.write(word + "\n")\<close> of the loop on a file opened for appending.
\<close>

fun append_new_pending_words :: "ustring list \<Rightarrow> ustring list \<Rightarrow> ustring \<Rightarrow> ustring" where
  "append_new_pending_words [] existing_words pending = pending"
| "append_new_pending_words (word # new_words) existing_words pending =
     (if word \<notin> set existing_words
      then append_new_pending_words new_words existing_words (pending @ word @ [NL])
      else append_new_pending_words new_words existing_words pending)"

text \<open>\<open>_remove_word_from_pending_file\<close>, as a function of the file's content.\<close>

definition remove_word_from_pending :: "ustring \<Rightarrow> ustring \<Rightarrow> ustring" where
  "remove_word_from_pending word pending =
     writelines (filter (\<lambda>line. py_strip line \<noteq> word) (readlines pending))"

section \<open>Digits\<close>

text \<open>
  \<open>c.isdigit()\<close> and \<open>int(c)\<close> for one character read the Unicode database. A character
  is no digit, a decimal digit with a value (\<open>int\<close> converts it), or a digit of another kind
  such as a superscript (\<open>isdigit\<close> holds and \<open>int\<close> raises \<open>ValueError\<close>). Below U+0100 the
  database is written out: the ASCII digits are decimal, and U+00B2, U+00B3 and U+00B9 (the
  superscripts two, three and one) are digits of the other kind. From U+0100 on the table is
  a parameter.
\<close>

datatype digit_class = NotDigit | Decimal nat | OtherDigit

definition char_class :: "(uchar \<Rightarrow> digit_class) \<Rightarrow> uchar \<Rightarrow> digit_class" where
  "char_class tbl c =
     (if c < 256 then
        (if 48 \<le> c \<and> c \<le> 57 then Decimal (c - 48)
         else if c = 178 \<or> c = 179 \<or> c = 185 then OtherDigit
         else NotDigit)
      else tbl c)"

definition py_isdigit :: "(uchar \<Rightarrow> digit_class) \<Rightarrow> uchar \<Rightarrow> bool" where
  "py_isdigit tbl c = (char_class tbl c \<noteq> NotDigit)"

definition py_int :: "(uchar \<Rightarrow> digit_class) \<Rightarrow> uchar \<Rightarrow> error + nat" where
  "py_int tbl c = (case char_class tbl c of Decimal d \<Rightarrow> Inr d | _ \<Rightarrow> Inl ValueError)"

text \<open>\<open>xs[i]\<close> for a Python integer \<open>i\<close>: a negative index counts from the end.\<close>

definition py_index :: "'a list \<Rightarrow> int \<Rightarrow> error + 'a" where
  "py_index xs i =
     (if 0 \<le> i \<and> i < int (length xs) then Inr (xs ! nat i)
      else if i < 0 \<and> - int (length xs) \<le> i then Inr (xs ! nat (int (length xs) + i))
      else Inl IndexError)"

section \<open>State of a run\<close>

text \<open>
  A candidate of the model's response, and a note of the collection: the note type
  (\<open>model_id\<close>), the fields in the order the script sets them, and the deck it is added to.
\<close>

record card =
  example_sentence :: ustring
  english :: ustring

record anki_note =
  note_model :: nat
  note_fields :: "(string \<times> ustring) list"
  note_deck :: nat

text \<open>
  The events of a run, in the order the script performs them: a background request
  submitted for the word at an index, the result of the request at an index retrieved, the
  interactive review of the word at an index begun, the message \<open>Invalid input: c\<close>
  printed, a note added to the collection, a word appended to the skipped or to the done
  file, the pending file rewritten without a word, and the message \<open>No words to process.\<close>
\<close>

datatype event =
    Submit nat ustring
  | Retrieve nat
  | Review nat
  | InvalidInput uchar
  | AddNote anki_note
  | AppendSkipped ustring
  | AppendDone ustring
  | RemovePending ustring
  | NoWords

record state =
  pending_file :: ustring
  done_file :: ustring
  skipped_file :: ustring
  collection :: "anki_note list"
  log :: "event list"

definition emit :: "event \<Rightarrow> state \<Rightarrow> state" where
  "emit e st = st\<lparr>log := log st @ [e]\<rparr>"

text \<open>
  What a run is given: the Unicode digit table, the three identifiers
  \<open>id_for_name\<close> returns (\<open>None\<close> when the name is unknown), the text of \<open>_NEW_WORDS\<close>, the
  two sources of draws, and the answer to the request submitted for the word at an index:
  \<open>None\<close> when the request raises, \<open>Some None\<close> when the content of the response does not
  parse into candidates with both fields, \<open>Some (Some cards)\<close> otherwise.
\<close>

record world =
  digit_table :: "uchar \<Rightarrow> digit_class"
  deck_lookup :: "nat option"
  cloze_lookup :: "nat option"
  basic_lookup :: "nat option"
  new_words :: ustring
  set_order :: "nat \<Rightarrow> nat"
  random_draw :: "nat \<Rightarrow> nat"
  llm :: "nat \<Rightarrow> string \<Rightarrow> ustring \<Rightarrow> card list option option"

text \<open>The identifiers \<open>_create_flashcard_interactively\<close> is called with.\<close>

record ids =
  deck_id :: nat
  cloze_model_id :: nat
  basic_model_id :: nat

section \<open>The interactive selector\<close>

definition mark_skipped :: "ustring \<Rightarrow> state \<Rightarrow> state" where
  "mark_skipped word st = emit (AppendSkipped word) (st\<lparr>skipped_file := skipped_file st @ word @ [NL]\<rparr>)"

definition mark_done :: "ustring \<Rightarrow> state \<Rightarrow> state" where
  "mark_done word st = emit (AppendDone word) (st\<lparr>done_file := done_file st @ word @ [NL]\<rparr>)"

definition remove_word_from_pending_file :: "ustring \<Rightarrow> state \<Rightarrow> state" where
  "remove_word_from_pending_file word st =
     emit (RemovePending word) (st\<lparr>pending_file := remove_word_from_pending word (pending_file st)\<rparr>)"

text \<open>The validation loop over the characters of the input; \<open>seen\<close> is the set of the source.\<close>

datatype validation = Valid | Invalid uchar | Raised error

fun validate :: "(uchar \<Rightarrow> digit_class) \<Rightarrow> nat \<Rightarrow> nat set \<Rightarrow> ustring \<Rightarrow> validation" where
  "validate tbl n seen [] = Valid"
| "validate tbl n seen (c # cs) =
     (if \<not> py_isdigit tbl c then Invalid c
      else (case py_int tbl c of
              Inl e \<Rightarrow> Raised e
            | Inr d \<Rightarrow> if d > n \<or> d = 0 \<or> d \<in> seen then Invalid c
                       else validate tbl n (insert d seen) cs))"

text \<open>The note of one selected candidate: model and fields by the script of the word.\<close>

definition note_for :: "ids \<Rightarrow> ustring \<Rightarrow> card \<Rightarrow> anki_note" where
  "note_for I word flashcard =
     (if is_kana word then
        \<lparr>note_model = basic_model_id I,
         note_fields = [(BASIC_JAPANESE_FIELD, example_sentence flashcard),
                        (BASIC_ENGLISH_FIELD, english flashcard)],
         note_deck = deck_id I\<rparr>
      else
        \<lparr>note_model = cloze_model_id I,
         note_fields = [(CLOZE_EXAMPLE_SENTENCE_FIELD, example_sentence flashcard),
                        (CLOZE_ENGLISH_FIELD, english flashcard)],
         note_deck = deck_id I\<rparr>)"

definition add_flashcard_to_deck :: "anki_note \<Rightarrow> state \<Rightarrow> state" where
  "add_flashcard_to_deck n st = emit (AddNote n) (st\<lparr>collection := collection st @ [n]\<rparr>)"

text \<open>The loop that creates the notes, one per character of the validated input.\<close>

fun create_cards ::
  "(uchar \<Rightarrow> digit_class) \<Rightarrow> ids \<Rightarrow> ustring \<Rightarrow> card list \<Rightarrow> ustring \<Rightarrow> state \<Rightarrow> error option \<times> state" where
  "create_cards tbl I word flashcards [] st = (None, st)"
| "create_cards tbl I word flashcards (c # cs) st =
     (case py_int tbl c of
        Inl e \<Rightarrow> (Some e, st)
      | Inr d \<Rightarrow>
          (case py_index flashcards (int d - 1) of
             Inl e \<Rightarrow> (Some e, st)
           | Inr flashcard \<Rightarrow>
               create_cards tbl I word flashcards cs
                 (add_flashcard_to_deck (note_for I word flashcard) st)))"

text \<open>
  The \<open>while True\<close> loop. The console is the list of the lines the user still types;
  \<open>input()\<close> takes the first and raises \<open>EOFError\<close> when none is left. The result is the
  exception that ended the call, if any, the lines left, and the state.
\<close>

fun select_loop ::
  "(uchar \<Rightarrow> digit_class) \<Rightarrow> ids \<Rightarrow> ustring \<Rightarrow> card list \<Rightarrow> ustring list \<Rightarrow> state
     \<Rightarrow> error option \<times> ustring list \<times> state" where
  "select_loop tbl I word flashcards [] st = (Some EOFError, [], st)"
| "select_loop tbl I word flashcards (user_input # rest) st =
     (if user_input = [] then
        (None, rest, remove_word_from_pending_file word (mark_skipped word st))
      else
        (case validate tbl (length flashcards) {} user_input of
           Raised e \<Rightarrow> (Some e, rest, st)
         | Invalid c \<Rightarrow> select_loop tbl I word flashcards rest (emit (InvalidInput c) st)
         | Valid \<Rightarrow>
             (case create_cards tbl I word flashcards user_input st of
                (Some e, st') \<Rightarrow> (Some e, rest, st')
              | (None, st') \<Rightarrow>
                  (None, rest, remove_word_from_pending_file word (mark_done word st')))))"

definition create_flashcard_interactively ::
  "(uchar \<Rightarrow> digit_class) \<Rightarrow> ids \<Rightarrow> ustring \<Rightarrow> card list option \<Rightarrow> ustring list \<Rightarrow> state
     \<Rightarrow> error option \<times> ustring list \<times> state" where
  "create_flashcard_interactively tbl I word completion ins st =
     (case completion of
        None \<Rightarrow> (Some ResponseError, ins, st)
      | Some flashcards \<Rightarrow> select_loop tbl I word flashcards ins st)"

section \<open>The main program\<close>

text \<open>
  \<open>executor.submit(_request_flashcards_from_llm, word)\<close> for the word at index \<open>i\<close>: the
  future holds the answer of the world to the prompt of the word's template.
\<close>

definition request_flashcards_from_llm :: "world \<Rightarrow> nat \<Rightarrow> ustring \<Rightarrow> card list option option" where
  "request_flashcards_from_llm W i word = llm W i (prompt_path word) word"

text \<open>The \<open>for\<close> loop of \<open>_main\<close>, from index \<open>i\<close> on, with the future in hand.\<close>

function main_loop ::
  "world \<Rightarrow> ids \<Rightarrow> ustring list \<Rightarrow> nat \<Rightarrow> card list option option \<Rightarrow> ustring list \<Rightarrow> state
     \<Rightarrow> error option \<times> ustring list \<times> state" where
  "main_loop W I pending_words i completion_future ins st =
     (if i < length pending_words then
        (case completion_future of
           None \<Rightarrow> (Some RequestError, ins, st)
         | Some completion \<Rightarrow>
             (let st1 = emit (Retrieve i) st;
                  next_future =
                    (if i + 1 < length pending_words
                     then request_flashcards_from_llm W (i + 1) (pending_words ! (i + 1))
                     else completion_future);
                  st2 =
                    (if i + 1 < length pending_words
                     then emit (Submit (i + 1) (pending_words ! (i + 1))) st1
                     else st1)
              in (case create_flashcard_interactively (digit_table W) I (pending_words ! i)
                         completion ins (emit (Review i) st2) of
                    (Some e, ins', st3) \<Rightarrow> (Some e, ins', st3)
                  | (None, ins', st3) \<Rightarrow> main_loop W I pending_words (i + 1) next_future ins' st3)))
      else (None, ins, st))"
  by pat_completeness auto
termination
  by (relation "measure (\<lambda>(W, I, pending_words, i, f, ins, st). length pending_words - i)") auto

text \<open>The \<open>with\<close> block of \<open>_main\<close>: the first request, then the loop.\<close>

definition process_pending ::
  "world \<Rightarrow> ids \<Rightarrow> ustring list \<Rightarrow> ustring list \<Rightarrow> state \<Rightarrow> error option \<times> ustring list \<times> state" where
  "process_pending W I pending_words ins st =
     (case pending_words of
        [] \<Rightarrow> (Some IndexError, ins, st)
      | word0 # _ \<Rightarrow>
          main_loop W I pending_words 0 (request_flashcards_from_llm W 0 word0) ins
            (emit (Submit 0 word0) st))"

text \<open>\<open>if not x: raise ValueError\<close> for an identifier: unknown, or zero.\<close>

definition missing_id :: "nat option \<Rightarrow> bool" where
  "missing_id x = (case x of None \<Rightarrow> True | Some k \<Rightarrow> k = 0)"

definition main :: "world \<Rightarrow> ustring list \<Rightarrow> state \<Rightarrow> error option \<times> ustring list \<times> state" where
  "main W ins st =
     (if missing_id (deck_lookup W) then (Some ValueError, ins, st)
      else if missing_id (cloze_lookup W) then (Some ValueError, ins, st)
      else if missing_id (basic_lookup W) then (Some ValueError, ins, st)
      else
        (case get_new_words_from_multiline_string (set_order W) (random_draw W) (new_words W) of
           Inl e \<Rightarrow> (Some e, ins, st)
         | Inr constant_words \<Rightarrow>
             (let pending_words = load_pending_words (pending_file st);
                  st1 =
                    (if constant_words \<noteq> []
                     then st\<lparr>pending_file :=
                            append_new_pending_words constant_words pending_words (pending_file st)\<rparr>
                     else st);
                  pending_words1 =
                    (if constant_words \<noteq> [] then load_pending_words (pending_file st1)
                     else pending_words)
              in if pending_words1 = [] then (None, ins, emit NoWords st1)
                 else process_pending W
                        \<lparr>deck_id = the (deck_lookup W), cloze_model_id = the (cloze_lookup W),
                         basic_model_id = the (basic_lookup W)\<rparr>
                        pending_words1 ins st1)))"

section \<open>Auxiliary notions of the proofs\<close>

text \<open>
  The definitions below are not part of the script. They name the notions the statements
  speak about and fix the example values on which the statements are evaluated.
\<close>

subsection \<open>Lines of a file\<close>

text \<open>
  The shape of what \<open>readlines\<close> returns: no line is empty, a newline stands only at the end
  of a line, and every line but the last ends in one.
\<close>

fun lines_ok :: "ustring list \<Rightarrow> bool" where
  "lines_ok [] = True"
| "lines_ok [l] = (l \<noteq> [] \<and> NL \<notin> set (butlast l))"
| "lines_ok (l # l' # ls) = (l \<noteq> [] \<and> NL \<notin> set (butlast l) \<and> last l = NL \<and> lines_ok (l' # ls))"

subsection \<open>Selected candidates\<close>

text \<open>
  The value \<open>int(c)\<close> of a character, zero where \<open>int\<close> raises, and the notes that an input
  selects: for each character, in order, the note of the candidate its value names.
\<close>

definition int_value :: "(uchar \<Rightarrow> digit_class) \<Rightarrow> uchar \<Rightarrow> nat" where
  "int_value tbl c = (case py_int tbl c of Inr d \<Rightarrow> d | Inl _ \<Rightarrow> 0)"

definition selected_notes :: "(uchar \<Rightarrow> digit_class) \<Rightarrow> ids \<Rightarrow> ustring \<Rightarrow> card list \<Rightarrow> ustring \<Rightarrow> anki_note list" where
  "selected_notes tbl I word flashcards user_input =
     map (\<lambda>c. note_for I word (flashcards ! (int_value tbl c - 1))) user_input"

subsection \<open>Events\<close>

text \<open>
  The kinds of events: those of the selector (all but the three of the pipeline and the
  message of the guard), among them the messages and note creations that precede a
  decision, and the removals from the pending file.
\<close>

definition selector_event :: "event \<Rightarrow> bool" where
  "selector_event e =
     (case e of InvalidInput _ \<Rightarrow> True | AddNote _ \<Rightarrow> True | AppendSkipped _ \<Rightarrow> True
              | AppendDone _ \<Rightarrow> True | RemovePending _ \<Rightarrow> True | _ \<Rightarrow> False)"

definition prompt_event :: "event \<Rightarrow> bool" where
  "prompt_event e = (case e of InvalidInput _ \<Rightarrow> True | AddNote _ \<Rightarrow> True | _ \<Rightarrow> False)"

definition is_removal :: "event \<Rightarrow> bool" where
  "is_removal e = (case e of RemovePending _ \<Rightarrow> True | _ \<Rightarrow> False)"

text \<open>
  A terminal decision on a word, between the state before the call and the state after it:
  after messages and note creations \<open>pre\<close>, the word was appended to the skipped file with
  no note created, or to the done file with at least one note created, and then the pending
  file was rewritten without the word, as the last event.
\<close>

definition decided :: "ustring \<Rightarrow> state \<Rightarrow> state \<Rightarrow> event list \<Rightarrow> bool" where
  "decided word st st' pre =
     (list_all prompt_event pre \<and>
      pending_file st' = remove_word_from_pending word (pending_file st) \<and>
      ((log st' = log st @ pre @ [AppendSkipped word, RemovePending word] \<and>
        skipped_file st' = skipped_file st @ word @ [NL] \<and>
        done_file st' = done_file st \<and> collection st' = collection st) \<or>
       (log st' = log st @ pre @ [AppendDone word, RemovePending word] \<and>
        done_file st' = done_file st @ word @ [NL] \<and>
        skipped_file st' = skipped_file st \<and>
        length (collection st) < length (collection st'))))"

subsection \<open>Order of events and requests in flight\<close>

text \<open>
  \<open>precedes a b L\<close>: if \<open>b\<close> occurs in the log \<open>L\<close>, then \<open>a\<close> occurs before the first \<open>b\<close>.
  \<open>in_flight L\<close>: the number of requests submitted in \<open>L\<close> minus the number of results
  retrieved in \<open>L\<close>, that is, the number of background requests pending after \<open>L\<close>.
\<close>

definition precedes :: "event \<Rightarrow> event \<Rightarrow> event list \<Rightarrow> bool" where
  "precedes a b L = (b \<in> set L \<longrightarrow> a \<in> set (takeWhile (\<lambda>e. e \<noteq> b) L))"

definition flight_delta :: "event \<Rightarrow> int" where
  "flight_delta e = (case e of Submit _ _ \<Rightarrow> 1 | Retrieve _ \<Rightarrow> - 1 | _ \<Rightarrow> 0)"

definition in_flight :: "event list \<Rightarrow> int" where
  "in_flight L = sum_list (map flight_delta L)"

text \<open>
  The ordering guarantee of the pipeline for a log: requests are submitted only for indices
  of the list and for the word there; the request for \<open>j + 1\<close> comes after the result of
  \<open>j\<close> and before the review of \<open>j\<close>; and after every prefix of the log at most one request
  is in flight.
\<close>

definition pipeline_ok :: "ustring list \<Rightarrow> event list \<Rightarrow> bool" where
  "pipeline_ok pending_words L =
     ((\<forall>j w. Submit j w \<in> set L \<longrightarrow> j < length pending_words \<and> w = pending_words ! j) \<and>
      (\<forall>j w. precedes (Retrieve j) (Submit (Suc j) w) L) \<and>
      (\<forall>j. Suc j < length pending_words \<longrightarrow>
           precedes (Submit (Suc j) (pending_words ! Suc j)) (Review j) L) \<and>
      (\<forall>n. 0 \<le> in_flight (take n L) \<and> in_flight (take n L) \<le> 1))"

text \<open>
  One iteration of the loop up to the call of the selector: the state with the three events
  logged, and the future held afterwards. An iteration is done in a log when its result was
  retrieved, its review begun and the next request, if there is a next word, submitted.
\<close>

definition prefetch_state :: "ustring list \<Rightarrow> nat \<Rightarrow> state \<Rightarrow> state" where
  "prefetch_state ws i st =
     emit (Review i)
       (if i + 1 < length ws then emit (Submit (i + 1) (ws ! (i + 1))) (emit (Retrieve i) st)
        else emit (Retrieve i) st)"

definition next_future ::
  "world \<Rightarrow> ustring list \<Rightarrow> nat \<Rightarrow> card list option option \<Rightarrow> card list option option" where
  "next_future W ws i fut =
     (if i + 1 < length ws then request_flashcards_from_llm W (i + 1) (ws ! (i + 1)) else fut)"

definition iteration_done :: "ustring list \<Rightarrow> nat \<Rightarrow> event list \<Rightarrow> bool" where
  "iteration_done ws j L =
     (Retrieve j \<in> set L \<and> Review j \<in> set L \<and>
      (Suc j < length ws \<longrightarrow> Submit (Suc j) (ws ! Suc j) \<in> set L))"

text \<open>The identifiers \<open>_main\<close> passes on, once the three look-ups have succeeded.\<close>

definition run_ids :: "world \<Rightarrow> ids" where
  "run_ids W = \<lparr>deck_id = the (deck_lookup W), cloze_model_id = the (cloze_lookup W),
                basic_model_id = the (basic_lookup W)\<rparr>"

subsection \<open>Example values\<close>

text \<open>The input of the ingestion example.\<close>

definition EXAMPLE_INPUT :: ustring where
  "EXAMPLE_INPUT = ustr ''# comment'' @ [NL, NL] @ ustr ''word1 reading'' @ [NL] @ ustr ''word1'' @ [NL] @ ustr ''word2'' @ [NL]"

text \<open>
  Identifiers, two candidates, a state with given pending file and everything else empty,
  a world in which every look-up and every request succeeds with the two candidates, and
  the run of the pipeline over three words in which the user skips each.
\<close>

definition demo_ids :: ids where
  "demo_ids = \<lparr>deck_id = 1, cloze_model_id = 2, basic_model_id = 3\<rparr>"

definition demo_cards :: "card list" where
  "demo_cards = [\<lparr>example_sentence = ustr ''s1'', english = ustr ''e1''\<rparr>,
                 \<lparr>example_sentence = ustr ''s2'', english = ustr ''e2''\<rparr>]"

definition demo_state :: "ustring \<Rightarrow> state" where
  "demo_state pending =
     \<lparr>pending_file = pending, done_file = [], skipped_file = [], collection = [], log = []\<rparr>"

definition demo_world :: world where
  "demo_world =
     \<lparr>digit_table = (\<lambda>_. NotDigit), deck_lookup = Some 1, cloze_lookup = Some 2,
      basic_lookup = Some 3, new_words = NEW_WORDS, set_order = (\<lambda>_. 0), random_draw = (\<lambda>_. 0),
      llm = (\<lambda>i p w. Some (Some demo_cards))\<rparr>"

definition demo_pipeline_result :: "error option \<times> ustring list \<times> state" where
  "demo_pipeline_result =
     process_pending demo_world demo_ids [ustr ''w0'', ustr ''w1'', ustr ''w2''] [[], [], []]
       (demo_state [])"

section \<open>Properties of the kana classification\<close>

lemma is_kana_blocks: "is_kana s \<longleftrightarrow> set s \<subseteq> hiragana_block \<union> katakana_block"
  by (auto simp: is_kana_def hiragana_block_def katakana_block_def list_all_iff)

text \<open>
  C6. \<open>is_kana s\<close> holds exactly when every character of \<open>s\<close> lies in the hiragana block
  (U+3040..U+309F) or in the katakana block (U+30A0..U+30FF); one character outside both
  blocks, anywhere in the word, makes the word non-kana and selects the cloze template; and
  the template chosen for a word is the basic one for a kana word and the cloze one
  otherwise.
\<close>

theorem kana_classification:
  "(is_kana s \<longleftrightarrow> (\<forall>c \<in> set s. c \<in> hiragana_block \<or> c \<in> katakana_block)) \<and>
   (c \<notin> hiragana_block \<and> c \<notin> katakana_block \<longrightarrow>
      \<not> is_kana (xs @ c # ys) \<and> prompt_path (xs @ c # ys) = CLOZE_PROMPT_PATH) \<and>
   prompt_path s = (if \<forall>c \<in> set s. c \<in> hiragana_block \<or> c \<in> katakana_block
                    then BASIC_PROMPT_PATH else CLOZE_PROMPT_PATH)"
proof -
  have a: "is_kana s \<longleftrightarrow> (\<forall>c \<in> set s. c \<in> hiragana_block \<or> c \<in> katakana_block)"
    by (auto simp: is_kana_blocks)
  have b: "c \<notin> hiragana_block \<and> c \<notin> katakana_block \<longrightarrow> \<not> is_kana (xs @ c # ys)"
    by (auto simp: is_kana_blocks)
  from a b show ?thesis by (simp add: prompt_path_def)
qed

theorem kana_classification_witness:
  "is_kana [0x3042, 0x30AB] \<and> prompt_path [0x3042, 0x30AB] = BASIC_PROMPT_PATH \<and>
   \<not> is_kana ([0x3042] @ 0x6F22 # [0x30AB]) \<and>
   prompt_path ([0x3042] @ 0x6F22 # [0x30AB]) = CLOZE_PROMPT_PATH"
proof -
  have h: "(0x6F22::nat) \<notin> hiragana_block \<and> (0x6F22::nat) \<notin> katakana_block"
    by (simp add: hiragana_block_def katakana_block_def)
  have k: "\<forall>c \<in> set [0x3042, 0x30AB::nat]. c \<in> hiragana_block \<or> c \<in> katakana_block"
    by (simp add: hiragana_block_def katakana_block_def)
  from kana_classification[of "[0x3042, 0x30AB]" "0x6F22" "[0x3042]" "[0x30AB]"] h k
  show ?thesis by simp
qed

section \<open>Properties of appending new pending words\<close>

lemma append_new_pending_words_eq:
  "append_new_pending_words news existing pending =
     pending @ concat (map (\<lambda>w. w @ [NL]) (filter (\<lambda>w. w \<notin> set existing) news))"
  by (induction news arbitrary: pending) auto

text \<open>
  C8. What \<open>_append_new_pending_words_to_file\<close> appends to the pending file is one line
  \<open>word + "\n"\<close> for each new word that is not among the existing words, in the order of the
  new words, and nothing else. A word \<open>w\<close> that is among the existing words therefore adds
  nothing: alone it leaves the file unchanged, and among other new words the file ends as
  it would without \<open>w\<close>. When all new words are among the existing ones the file is
  unchanged.
\<close>

theorem append_pending_only_new:
  "append_new_pending_words news existing pending =
     pending @ concat (map (\<lambda>w. w @ [NL]) (filter (\<lambda>w. w \<notin> set existing) news)) \<and>
   (w \<in> set existing \<longrightarrow>
      append_new_pending_words [w] existing pending = pending \<and>
      append_new_pending_words (xs @ w # ys) existing pending =
        append_new_pending_words (xs @ ys) existing pending) \<and>
   (set news \<subseteq> set existing \<longrightarrow>
      append_new_pending_words news existing pending = pending)"
proof -
  have "set news \<subseteq> set existing \<Longrightarrow> filter (\<lambda>w. w \<notin> set existing) news = []"
    by (induction news) auto
  then show ?thesis by (auto simp: append_new_pending_words_eq)
qed

theorem append_pending_only_new_witness:
  "append_new_pending_words [ustr ''a''] [ustr ''a'', ustr ''b''] (ustr ''b'' @ [NL]) = ustr ''b'' @ [NL] \<and>
   append_new_pending_words ([ustr ''c''] @ ustr ''a'' # [ustr ''d'']) [ustr ''a'', ustr ''b''] (ustr ''b'' @ [NL]) =
     ustr ''b'' @ [NL] @ ustr ''c'' @ [NL] @ ustr ''d'' @ [NL]"
proof -
  have h: "ustr ''a'' \<in> set [ustr ''a'', ustr ''b'']" by simp
  from append_pending_only_new[of "[ustr ''c''] @ ustr ''a'' # [ustr ''d'']" "[ustr ''a'', ustr ''b'']"
      "ustr ''b'' @ [NL]" "ustr ''a''" "[ustr ''c'']" "[ustr ''d'']"]
    append_pending_only_new[of "[ustr ''a'']" "[ustr ''a'', ustr ''b'']" "ustr ''b'' @ [NL]" "ustr ''a''" "[]" "[]"] h
  show ?thesis by (simp add: ustr_def)
qed

section \<open>Properties of the new-word ingestion\<close>

lemma split_acc_Nil_iff: "split_acc tok s = [] \<longleftrightarrow> tok = [] \<and> (\<forall>c \<in> set s. py_isspace c)"
  by (induction s arbitrary: tok) auto

lemma py_lstrip_no_space: "py_lstrip s \<noteq> [] \<Longrightarrow> \<not> py_isspace (hd (py_lstrip s))"
  unfolding py_lstrip_def by (rule hd_dropWhile)

lemma py_split_strip_not_Nil: "py_strip line \<noteq> [] \<Longrightarrow> py_split (py_strip line) \<noteq> []"
proof -
  assume ne: "py_strip line \<noteq> []"
  then have "\<not> py_isspace (hd (py_strip line))"
    unfolding py_strip_def by (rule py_lstrip_no_space)
  moreover from ne have "hd (py_strip line) \<in> set (py_strip line)" by simp
  ultimately show ?thesis
    unfolding py_split_def by (auto simp: split_acc_Nil_iff)
qed

lemma first_token_ok: "py_strip line \<noteq> [] \<Longrightarrow> \<exists>t. first_token line = Inr t"
  using py_split_strip_not_Nil[of line]
  by (cases "py_split (py_strip line)") (auto simp: first_token_def)

lemma tokens_of_lines_ok: "\<exists>ts. tokens_of_lines lines = Inr ts"
proof (induction lines)
  case Nil
  then show ?case by simp
next
  case (Cons line lines)
  then obtain ts where ts: "tokens_of_lines lines = Inr ts" by blast
  show ?case
  proof (cases "py_strip line \<noteq> [] \<and> \<not> startswith_hash (py_strip line)")
    case True
    then obtain t where "first_token line = Inr t" using first_token_ok by blast
    with True ts show ?thesis by simp
  next
    case False
    with ts show ?thesis by auto
  qed
qed

lemma length_swap: "length (swap i j xs) = length xs"
  by (simp add: swap_def)

lemma mset_swap': "i < length xs \<Longrightarrow> j < length xs \<Longrightarrow> mset (swap i j xs) = mset xs"
  unfolding swap_def by (simp add: mset_swap)

lemma mset_shuffle_steps: "i < length xs \<Longrightarrow> mset (shuffle_steps rnd i xs) = mset xs"
proof (induction i arbitrary: xs)
  case 0
  then show ?case by simp
next
  case (Suc i)
  have "rnd (Suc i) mod (Suc i + 1) < Suc i + 1" by simp
  with Suc.prems have j: "rnd (Suc i) mod (Suc i + 1) < length xs" by linarith
  have "mset (shuffle_steps rnd i (swap (Suc i) (rnd (Suc i) mod (Suc i + 1)) xs)) =
        mset (swap (Suc i) (rnd (Suc i) mod (Suc i + 1)) xs)"
    using Suc.prems by (intro Suc.IH) (simp add: length_swap)
  also have "\<dots> = mset xs" using Suc.prems j by (rule mset_swap')
  finally show ?case by simp
qed

lemma mset_py_shuffle: "mset (py_shuffle rnd xs) = mset xs"
  by (cases xs) (simp_all add: py_shuffle_def mset_shuffle_steps)

lemma mset_py_list_of_set: "mset (py_list_of_set ord xs) = mset (remdups xs)"
  by (simp add: py_list_of_set_def mset_py_shuffle)

lemma example_tokens:
  "tokens_of_lines (split_nl EXAMPLE_INPUT) = Inr [ustr ''word1'', ustr ''word1'', ustr ''word2'']"
  by (simp add: EXAMPLE_INPUT_def ustr_def NL_def HASH_def first_token_def py_split_def py_strip_def
      py_lstrip_def py_rstrip_def py_isspace_def startswith_hash_def)

lemma get_new_words_perm:
  "\<exists>tokens ws. tokens_of_lines (split_nl s) = Inr tokens \<and>
         get_new_words_from_multiline_string ord rnd s = Inr ws \<and>
         mset ws = mset (remdups tokens) \<and> set ws = set tokens \<and> distinct ws"
proof -
  obtain tokens where t: "tokens_of_lines (split_nl s) = Inr tokens"
    using tokens_of_lines_ok by blast
  define ws where "ws = py_shuffle rnd (py_list_of_set ord tokens)"
  have g: "get_new_words_from_multiline_string ord rnd s = Inr ws"
    by (simp add: get_new_words_from_multiline_string_def t ws_def)
  have m: "mset ws = mset (remdups tokens)"
    by (simp add: ws_def mset_py_shuffle mset_py_list_of_set)
  have "set ws = set (remdups tokens)" using m by (rule mset_eq_setD)
  then have s: "set ws = set tokens" by simp
  have "distinct ws = distinct (remdups tokens)" using m by (rule mset_eq_imp_distinct_iff)
  then have d: "distinct ws" by simp
  from t g m s d show ?thesis by blast
qed

text \<open>
  C7. On the example input the list comprehension keeps \<open>word1\<close>, \<open>word1\<close>, \<open>word2\<close> (the
  comment line and the blank lines are dropped and only the first token of a line is kept),
  and the function returns a list of length two whose elements are exactly \<open>word1\<close> and
  \<open>word2\<close>. On every input, whatever the order of the set and the draws of the shuffle, the
  function returns without raising, and the list it returns is a permutation of the
  extracted words with duplicates removed.
\<close>

theorem new_word_ingestion:
  "tokens_of_lines (split_nl EXAMPLE_INPUT) = Inr [ustr ''word1'', ustr ''word1'', ustr ''word2''] \<and>
   (\<exists>ws. get_new_words_from_multiline_string ord rnd EXAMPLE_INPUT = Inr ws \<and>
         set ws = {ustr ''word1'', ustr ''word2''} \<and> distinct ws \<and> length ws = 2) \<and>
   (\<exists>tokens ws. tokens_of_lines (split_nl s) = Inr tokens \<and>
         get_new_words_from_multiline_string ord rnd s = Inr ws \<and>
         mset ws = mset (remdups tokens) \<and> set ws = set tokens \<and> distinct ws)"
proof -
  obtain tokens ws where
    t: "tokens_of_lines (split_nl EXAMPLE_INPUT) = Inr tokens" and
    g: "get_new_words_from_multiline_string ord rnd EXAMPLE_INPUT = Inr ws" and
    m: "mset ws = mset (remdups tokens)" and s: "set ws = set tokens" and d: "distinct ws"
    using get_new_words_perm[of EXAMPLE_INPUT ord rnd] by blast
  from t have tok: "tokens = [ustr ''word1'', ustr ''word1'', ustr ''word2'']"
    by (simp only: example_tokens sum.inject)
  have ne: "ustr ''word1'' \<noteq> ustr ''word2''" by (simp add: ustr_def)
  have "length ws = length (remdups tokens)" using m by (rule mset_eq_length)
  also have "\<dots> = 2" using ne by (simp add: tok)
  finally have l: "length ws = 2" .
  have s': "set ws = {ustr ''word1'', ustr ''word2''}" using s by (simp add: tok)
  have ex: "\<exists>ws. get_new_words_from_multiline_string ord rnd EXAMPLE_INPUT = Inr ws \<and>
         set ws = {ustr ''word1'', ustr ''word2''} \<and> distinct ws \<and> length ws = 2"
    using g s' d l by blast
  show ?thesis using example_tokens ex get_new_words_perm[of s ord rnd] by (intro conjI)
qed

section \<open>Properties of loading and removing pending words\<close>

lemma split_nl_not_Nil: "split_nl s \<noteq> []"
  by (induction s) (auto split: list.splits)

lemma split_nl_snoc_NL: "split_nl (s @ [NL]) = split_nl s @ [[]]"
  by (induction s) (auto split: list.splits simp: split_nl_not_Nil)

lemma concat_readlines: "concat (readlines s) = s"
  by (induction s) (auto split: list.splits)

lemma lines_ok_readlines: "lines_ok (readlines s)"
proof (induction s)
  case Nil
  then show ?case by simp
next
  case (Cons c s)
  show ?case
  proof (cases "c = NL")
    case True
    with Cons show ?thesis by (cases "readlines s") auto
  next
    case False
    show ?thesis
    proof (cases "readlines s")
      case Nil
      with False show ?thesis by simp
    next
      case (Cons l ls)
      with False Cons.IH show ?thesis by (cases ls) auto
    qed
  qed
qed

lemma lines_ok_ConsI:
  "l \<noteq> [] \<Longrightarrow> NL \<notin> set (butlast l) \<Longrightarrow> last l = NL \<or> ls = [] \<Longrightarrow> lines_ok ls \<Longrightarrow> lines_ok (l # ls)"
  by (cases ls) auto

lemma lines_ok_filter: "lines_ok ls \<Longrightarrow> lines_ok (filter P ls)"
proof (induction ls rule: lines_ok.induct)
  case 1
  then show ?case by simp
next
  case (2 l)
  then show ?case by simp
next
  case (3 l l' ls)
  then have ok: "lines_ok (filter P (l' # ls))" by simp
  show ?case
  proof (cases "P l")
    case True
    from 3 have "l \<noteq> []" "NL \<notin> set (butlast l)" "last l = NL" by simp_all
    with ok True show ?thesis using lines_ok_ConsI[of l "filter P (l' # ls)"] by simp
  next
    case False
    with ok show ?thesis by simp
  qed
qed

lemma readlines_first_line:
  "l \<noteq> [] \<Longrightarrow> NL \<notin> set (butlast l) \<Longrightarrow>
   readlines (l @ r) =
     (if last l = NL then l # readlines r
      else (case readlines r of [] \<Rightarrow> [l] | x # xs \<Rightarrow> (l @ x) # xs))"
proof (induction l)
  case Nil
  then show ?case by simp
next
  case (Cons c l)
  show ?case
  proof (cases "l = []")
    case True
    then show ?thesis by (auto split: list.splits)
  next
    case False
    with Cons.prems have "c \<noteq> NL" "NL \<notin> set (butlast l)" by auto
    with False Cons.IH show ?thesis by (auto split: list.splits)
  qed
qed

lemma readlines_concat: "lines_ok ls \<Longrightarrow> readlines (concat ls) = ls"
proof (induction ls rule: lines_ok.induct)
  case 1
  then show ?case by simp
next
  case (2 l)
  then show ?case using readlines_first_line[of l "[]"] by (auto split: if_splits)
next
  case (3 l l' ls)
  then show ?case using readlines_first_line[of l "concat (l' # ls)"] by simp
qed

lemma readlines_remove:
  "readlines (remove_word_from_pending w s) = filter (\<lambda>line. py_strip line \<noteq> w) (readlines s)"
  unfolding remove_word_from_pending_def writelines_def
  by (rule readlines_concat) (rule lines_ok_filter, rule lines_ok_readlines)

text \<open>
  C5. After \<open>_remove_word_from_pending_file(w)\<close> the lines of the pending file are the
  lines it had before whose trimmed content differs from \<open>w\<close>, unchanged and in their
  original order; so no line of the new file has trimmed content \<open>w\<close>.
\<close>

theorem remove_pending_correct:
  "readlines (remove_word_from_pending w pending) =
     filter (\<lambda>line. py_strip line \<noteq> w) (readlines pending) \<and>
   w \<notin> set (map py_strip (readlines (remove_word_from_pending w pending)))"
  by (auto simp: readlines_remove)

section \<open>Properties of the interactive selector\<close>

subsection \<open>Validation and note creation\<close>

lemma py_int_isdigit: "py_int tbl c = Inr d \<Longrightarrow> py_isdigit tbl c"
  by (auto simp: py_int_def py_isdigit_def split: digit_class.splits)

lemma py_int_value: "py_int tbl c = Inr d \<Longrightarrow> int_value tbl c = d"
  by (simp add: int_value_def)

lemma validate_Valid_iff:
  "validate tbl n seen u = Valid \<longleftrightarrow>
     (\<forall>c \<in> set u. \<exists>d. py_int tbl c = Inr d \<and> 1 \<le> d \<and> d \<le> n \<and> d \<notin> seen) \<and>
     distinct (map (int_value tbl) u)"
proof (induction u arbitrary: seen)
  case Nil
  then show ?case by simp
next
  case (Cons c cs)
  show ?case
  proof (cases "py_int tbl c")
    case (Inl e)
    then show ?thesis by auto
  next
    case (Inr d)
    then have dig: "py_isdigit tbl c" and v: "int_value tbl c = d"
      by (simp_all add: py_int_isdigit py_int_value)
    show ?thesis
    proof (cases "d > n \<or> d = 0 \<or> d \<in> seen")
      case True
      with Inr dig show ?thesis by auto
    next
      case False
      have "validate tbl n seen (c # cs) = validate tbl n (insert d seen) cs"
        using Inr dig False by simp
      also have "\<dots> = Valid \<longleftrightarrow>
        (\<forall>c' \<in> set cs. \<exists>d'. py_int tbl c' = Inr d' \<and> 1 \<le> d' \<and> d' \<le> n \<and> d' \<notin> insert d seen) \<and>
        distinct (map (int_value tbl) cs)"
        by (rule Cons.IH)
      also have "\<dots> \<longleftrightarrow>
        (\<forall>c' \<in> set cs. \<exists>d'. py_int tbl c' = Inr d' \<and> 1 \<le> d' \<and> d' \<le> n \<and> d' \<notin> seen) \<and>
        d \<notin> int_value tbl ` set cs \<and> distinct (map (int_value tbl) cs)"
        by (force simp: py_int_value)
      finally show ?thesis using Inr False v by auto
    qed
  qed
qed

lemma validate_Invalid_mem: "validate tbl n seen u = Invalid c \<Longrightarrow> c \<in> set u"
  by (induction u arbitrary: seen) (auto split: if_splits sum.splits)

lemma py_index_pos: "1 \<le> d \<Longrightarrow> d \<le> length xs \<Longrightarrow> py_index xs (int d - 1) = Inr (xs ! (d - 1))"
  by (auto simp: py_index_def nat_diff_distrib' split: if_splits)

lemma create_cards_valid:
  "validate tbl (length flashcards) seen u = Valid \<Longrightarrow>
   create_cards tbl I word flashcards u st =
     (None, st\<lparr>collection := collection st @ selected_notes tbl I word flashcards u,
                log := log st @ map AddNote (selected_notes tbl I word flashcards u)\<rparr>)"
proof (induction u arbitrary: seen st)
  case Nil
  then show ?case by (simp add: selected_notes_def)
next
  case (Cons c cs)
  from Cons.prems obtain d where d: "py_int tbl c = Inr d" "1 \<le> d" "d \<le> length flashcards"
    and rest: "validate tbl (length flashcards) (insert d seen) cs = Valid"
    by (auto split: if_splits sum.splits)
  have idx: "py_index flashcards (int d - 1) = Inr (flashcards ! (d - 1))"
    using d by (simp add: py_index_pos)
  have v: "int_value tbl c = d" using d by (simp add: py_int_value)
  show ?case
    using Cons.IH[OF rest] d idx v
    by (simp add: selected_notes_def add_flashcard_to_deck_def emit_def)
qed

lemma select_loop_skip:
  "select_loop tbl I word flashcards ([] # rest) st =
     (None, rest, remove_word_from_pending_file word (mark_skipped word st))"
  by simp

lemma select_loop_invalid:
  "validate tbl (length flashcards) {} u = Invalid c \<Longrightarrow>
   select_loop tbl I word flashcards (u # rest) st =
     select_loop tbl I word flashcards rest (emit (InvalidInput c) st)"
  by (cases u) (auto)

lemma select_loop_valid:
  "u \<noteq> [] \<Longrightarrow> validate tbl (length flashcards) {} u = Valid \<Longrightarrow>
   select_loop tbl I word flashcards (u # rest) st =
     (None, rest,
      st\<lparr>collection := collection st @ selected_notes tbl I word flashcards u,
         done_file := done_file st @ word @ [NL],
         pending_file := remove_word_from_pending word (pending_file st),
         log := log st @ map AddNote (selected_notes tbl I word flashcards u) @
                  [AppendDone word, RemovePending word]\<rparr>)"
  by (simp add: create_cards_valid remove_word_from_pending_file_def mark_done_def emit_def)

lemma select_loop_raised:
  "validate tbl (length flashcards) {} u = Raised e \<Longrightarrow>
   select_loop tbl I word flashcards (u # rest) st = (Some e, rest, st)"
  by (cases u) auto

subsection \<open>Terminal decisions\<close>

lemma decided_emit:
  "decided word (emit (InvalidInput c) st) st' pre \<Longrightarrow> decided word st st' (InvalidInput c # pre)"
  by (auto simp: decided_def emit_def prompt_event_def)

lemma select_loop_decided:
  "select_loop tbl I word flashcards ins st = (None, ins', st') \<Longrightarrow> \<exists>pre. decided word st st' pre"
proof (induction ins arbitrary: st)
  case Nil
  then show ?case by simp
next
  case (Cons u rest)
  show ?case
  proof (cases "u = []")
    case True
    with Cons.prems have "st' = remove_word_from_pending_file word (mark_skipped word st)" by simp
    then have "decided word st st' []"
      by (simp add: decided_def remove_word_from_pending_file_def mark_skipped_def emit_def)
    then show ?thesis by blast
  next
    case False
    show ?thesis
    proof (cases "validate tbl (length flashcards) {} u")
      case Valid
      let ?ns = "selected_notes tbl I word flashcards u"
      from False have "?ns \<noteq> []" by (simp add: selected_notes_def)
      moreover from Cons.prems have "st' = st\<lparr>collection := collection st @ ?ns,
         done_file := done_file st @ word @ [NL],
         pending_file := remove_word_from_pending word (pending_file st),
         log := log st @ map AddNote ?ns @ [AppendDone word, RemovePending word]\<rparr>"
        using select_loop_valid[OF False Valid, of I word rest st] by simp
      ultimately have "decided word st st' (map AddNote ?ns)"
        by (simp add: decided_def list_all_iff prompt_event_def)
      then show ?thesis by blast
    next
      case (Invalid c)
      from Cons.prems have "select_loop tbl I word flashcards rest (emit (InvalidInput c) st) = (None, ins', st')"
        unfolding select_loop_invalid[OF Invalid] .
      then obtain pre where "decided word (emit (InvalidInput c) st) st' pre"
        using Cons.IH by blast
      then show ?thesis using decided_emit by blast
    next
      case (Raised e)
      from Cons.prems have False unfolding select_loop_raised[OF Raised] by simp
      then show ?thesis ..
    qed
  qed
qed

lemma filter_removal_prompt: "list_all prompt_event pre \<Longrightarrow> filter is_removal pre = []"
  by (induction pre) (auto simp: prompt_event_def is_removal_def split: event.splits)

text \<open>
  C2. When \<open>_create_flashcard_interactively\<close> returns normally for a word, that is, when the
  selector reached a terminal decision, the events it added to the log are messages and
  note creations followed by exactly two more: the append of the word to the skipped file
  (skip, no note created) or to the done file (kept, at least one note created), and then
  the removal of the word from the pending file. The removal is the only one among the
  added events, it is the last event, and the pending file is rewritten once, by
  \<open>_remove_word_from_pending_file\<close> for this word.
\<close>

theorem terminal_decision_removes_once:
  "create_flashcard_interactively tbl I word completion ins st = (None, ins', st') \<longrightarrow>
     (\<exists>pre. decided word st st' pre) \<and>
     filter is_removal (drop (length (log st)) (log st')) = [RemovePending word]"
proof
  assume run: "create_flashcard_interactively tbl I word completion ins st = (None, ins', st')"
  then obtain flashcards where "completion = Some flashcards"
    and "select_loop tbl I word flashcards ins st = (None, ins', st')"
    by (cases completion) (auto simp: create_flashcard_interactively_def)
  then obtain pre where d: "decided word st st' pre"
    using select_loop_decided by blast
  then have "filter is_removal pre = []" by (simp add: decided_def filter_removal_prompt)
  with d have "filter is_removal (drop (length (log st)) (log st')) = [RemovePending word]"
    by (auto simp: decided_def is_removal_def)
  with d show "(\<exists>pre. decided word st st' pre) \<and>
     filter is_removal (drop (length (log st)) (log st')) = [RemovePending word]" by blast
qed

subsection \<open>Evaluation on the example values\<close>

lemmas run_defs =
  create_flashcard_interactively_def py_isdigit_def py_int_def char_class_def py_index_def
  note_for_def is_kana_def add_flashcard_to_deck_def emit_def mark_done_def mark_skipped_def
  remove_word_from_pending_file_def remove_word_from_pending_def writelines_def
  py_strip_def py_lstrip_def py_rstrip_def py_isspace_def NL_def ustr_def
  demo_ids_def demo_cards_def demo_state_def

lemma demo_run_kept:
  "create_flashcard_interactively (\<lambda>_. NotDigit) demo_ids (ustr ''a'') (Some demo_cards)
     [ustr ''21''] (demo_state (ustr ''a'' @ [NL] @ ustr ''b'' @ [NL])) =
   (None, [],
    \<lparr>pending_file = ustr ''b'' @ [NL], done_file = ustr ''a'' @ [NL], skipped_file = [],
     collection = [note_for demo_ids (ustr ''a'') (demo_cards ! 1),
                   note_for demo_ids (ustr ''a'') (demo_cards ! 0)],
     log = [AddNote (note_for demo_ids (ustr ''a'') (demo_cards ! 1)),
            AddNote (note_for demo_ids (ustr ''a'') (demo_cards ! 0)),
            AppendDone (ustr ''a''), RemovePending (ustr ''a'')]\<rparr>)"
  by (simp add: run_defs)

theorem terminal_decision_removes_once_witness:
  "create_flashcard_interactively (\<lambda>_. NotDigit) demo_ids (ustr ''a'') (Some demo_cards)
     [ustr ''21''] (demo_state (ustr ''a'' @ [NL] @ ustr ''b'' @ [NL])) =
   (None, [],
    \<lparr>pending_file = ustr ''b'' @ [NL], done_file = ustr ''a'' @ [NL], skipped_file = [],
     collection = [note_for demo_ids (ustr ''a'') (demo_cards ! 1),
                   note_for demo_ids (ustr ''a'') (demo_cards ! 0)],
     log = [AddNote (note_for demo_ids (ustr ''a'') (demo_cards ! 1)),
            AddNote (note_for demo_ids (ustr ''a'') (demo_cards ! 0)),
            AppendDone (ustr ''a''), RemovePending (ustr ''a'')]\<rparr>) \<and>
   filter is_removal
     [AddNote (note_for demo_ids (ustr ''a'') (demo_cards ! 1)),
      AddNote (note_for demo_ids (ustr ''a'') (demo_cards ! 0)),
      AppendDone (ustr ''a''), RemovePending (ustr ''a'')] = [RemovePending (ustr ''a'')]"
  using terminal_decision_removes_once[THEN mp, OF demo_run_kept] demo_run_kept
  by (simp add: demo_state_def)

subsection \<open>Accepted and rejected inputs\<close>

lemma py_int_latin1:
  "c < 256 \<Longrightarrow> py_int tbl c = (if 48 \<le> c \<and> c \<le> 57 then Inr (c - 48) else Inl ValueError)"
  by (simp add: py_int_def char_class_def)

lemma int_value_ascii_digit: "48 \<le> c \<Longrightarrow> c \<le> 57 \<Longrightarrow> int_value tbl c = c - 48"
  by (simp add: int_value_def py_int_latin1)

lemma distinct_ascii_digits:
  "\<forall>c \<in> set u. 48 \<le> c \<and> c \<le> 57 \<Longrightarrow> distinct (map (int_value tbl) u) = distinct u"
proof -
  assume a: "\<forall>c \<in> set u. 48 \<le> c \<and> c \<le> 57"
  have "inj_on (int_value tbl) (set u)"
  proof (rule inj_onI)
    fix x y assume "x \<in> set u" "y \<in> set u" "int_value tbl x = int_value tbl y"
    with a have "x - 48 = y - 48" "48 \<le> x" "48 \<le> y" by (auto simp: int_value_ascii_digit)
    then show "x = y" by linarith
  qed
  then show ?thesis by (simp add: distinct_map)
qed

lemma validate_latin1:
  assumes "\<forall>c \<in> set u. c < 256"
  shows "validate tbl n {} u = Valid \<longleftrightarrow>
           (\<forall>c \<in> set u. 49 \<le> c \<and> c \<le> 57 \<and> c \<le> 48 + n) \<and> distinct u"
proof -
  have eq: "(\<exists>d. py_int tbl c = Inr d \<and> 1 \<le> d \<and> d \<le> n \<and> d \<notin> {}) \<longleftrightarrow>
            (49 \<le> c \<and> c \<le> 57 \<and> c \<le> 48 + n)" if "c \<in> set u" for c
  proof -
    from that assms have "c < 256" by blast
    then show ?thesis by (auto simp: py_int_latin1)
  qed
  show ?thesis
  proof
    assume v: "validate tbl n {} u = Valid"
    then have r: "\<forall>c \<in> set u. 49 \<le> c \<and> c \<le> 57 \<and> c \<le> 48 + n"
      using eq by (simp add: validate_Valid_iff)
    then have "\<forall>c \<in> set u. 48 \<le> c \<and> c \<le> 57" by auto
    then have "distinct (map (int_value tbl) u) = distinct u" by (rule distinct_ascii_digits)
    with v r show "(\<forall>c \<in> set u. 49 \<le> c \<and> c \<le> 57 \<and> c \<le> 48 + n) \<and> distinct u"
      by (simp add: validate_Valid_iff)
  next
    assume r: "(\<forall>c \<in> set u. 49 \<le> c \<and> c \<le> 57 \<and> c \<le> 48 + n) \<and> distinct u"
    then have "\<forall>c \<in> set u. 48 \<le> c \<and> c \<le> 57" by auto
    then have "distinct (map (int_value tbl) u) = distinct u" by (rule distinct_ascii_digits)
    with r eq show "validate tbl n {} u = Valid" by (simp add: validate_Valid_iff)
  qed
qed

lemma create_skip:
  "create_flashcard_interactively tbl I word (Some flashcards) ([] # rest) st =
     (None, rest,
      st\<lparr>skipped_file := skipped_file st @ word @ [NL],
         pending_file := remove_word_from_pending word (pending_file st),
         log := log st @ [AppendSkipped word, RemovePending word]\<rparr>)"
  by (simp add: create_flashcard_interactively_def remove_word_from_pending_file_def
      mark_skipped_def emit_def)

lemma create_valid:
  "u \<noteq> [] \<Longrightarrow> validate tbl (length flashcards) {} u = Valid \<Longrightarrow>
   create_flashcard_interactively tbl I word (Some flashcards) (u # rest) st =
     (None, rest,
      st\<lparr>collection := collection st @ selected_notes tbl I word flashcards u,
         done_file := done_file st @ word @ [NL],
         pending_file := remove_word_from_pending word (pending_file st),
         log := log st @ map AddNote (selected_notes tbl I word flashcards u) @
                  [AppendDone word, RemovePending word]\<rparr>)"
  unfolding create_flashcard_interactively_def option.case by (rule select_loop_valid)

lemma create_invalid:
  "validate tbl (length flashcards) {} u = Invalid c \<Longrightarrow>
   create_flashcard_interactively tbl I word (Some flashcards) (u # rest) st =
     create_flashcard_interactively tbl I word (Some flashcards) rest (emit (InvalidInput c) st)"
  unfolding create_flashcard_interactively_def option.case by (rule select_loop_invalid)

lemma validate_examples:
  "validate tbl 2 {} (ustr ''21'') = Valid \<and>
   validate tbl 2 {} (ustr ''3'') = Invalid (of_char CHR ''3'') \<and>
   validate tbl 2 {} (ustr ''11'') = Invalid (of_char CHR ''1'')"
  by (simp add: ustr_def py_isdigit_def py_int_def char_class_def)

text \<open>
  C3. Against \<open>n\<close> candidates the validation accepts an input exactly when every character
  is a decimal digit whose value is between 1 and \<open>n\<close> and no value occurs twice; for an
  input of characters below U+0100 that is: every character is one of \<open>1\<close>..\<open>9\<close>, at most
  \<open>n\<close>, and no character is repeated. An accepted non-empty input creates one note per
  character, in input order, from the candidate the digit names, and only then appends the
  word to the done file and removes it from pending; the empty input skips the word and
  creates no note. A note has the basic model and the fields Expression and Meaning when
  the word is kana, and the cloze model and the fields Expression and Extra otherwise.
  With two candidates \<open>"21"\<close> selects the second and then the first, and \<open>"3"\<close> and \<open>"11"\<close> are
  rejected with a message naming \<open>3\<close> and \<open>1\<close>.
\<close>

theorem selector_validation:
  "(validate tbl (length flashcards) {} u = Valid \<longleftrightarrow>
      (\<forall>c \<in> set u. \<exists>d. py_int tbl c = Inr d \<and> 1 \<le> d \<and> d \<le> length flashcards) \<and>
      distinct (map (int_value tbl) u)) \<and>
   ((\<forall>c \<in> set u. c < 256) \<longrightarrow>
      (validate tbl (length flashcards) {} u = Valid \<longleftrightarrow>
         (\<forall>c \<in> set u. 49 \<le> c \<and> c \<le> 57 \<and> c \<le> 48 + length flashcards) \<and> distinct u)) \<and>
   (u \<noteq> [] \<and> validate tbl (length flashcards) {} u = Valid \<longrightarrow>
      create_flashcard_interactively tbl I word (Some flashcards) (u # rest) st =
        (None, rest,
         st\<lparr>collection := collection st @
                 map (\<lambda>c. note_for I word (flashcards ! (int_value tbl c - 1))) u,
            done_file := done_file st @ word @ [NL],
            pending_file := remove_word_from_pending word (pending_file st),
            log := log st @
                 map AddNote (map (\<lambda>c. note_for I word (flashcards ! (int_value tbl c - 1))) u) @
                 [AppendDone word, RemovePending word]\<rparr>)) \<and>
   create_flashcard_interactively tbl I word (Some flashcards) ([] # rest) st =
     (None, rest,
      st\<lparr>skipped_file := skipped_file st @ word @ [NL],
         pending_file := remove_word_from_pending word (pending_file st),
         log := log st @ [AppendSkipped word, RemovePending word]\<rparr>) \<and>
   note_for I word flashcard =
     (if is_kana word
      then \<lparr>note_model = basic_model_id I,
            note_fields = [(''Expression'', example_sentence flashcard),
                           (''Meaning'', english flashcard)],
            note_deck = deck_id I\<rparr>
      else \<lparr>note_model = cloze_model_id I,
            note_fields = [(''Expression'', example_sentence flashcard),
                           (''Extra'', english flashcard)],
            note_deck = deck_id I\<rparr>) \<and>
   create_flashcard_interactively tbl I word (Some [card1, card2]) (ustr ''21'' # rest) st =
     (None, rest,
      st\<lparr>collection := collection st @ [note_for I word card2, note_for I word card1],
         done_file := done_file st @ word @ [NL],
         pending_file := remove_word_from_pending word (pending_file st),
         log := log st @ [AddNote (note_for I word card2), AddNote (note_for I word card1),
                          AppendDone word, RemovePending word]\<rparr>) \<and>
   create_flashcard_interactively tbl I word (Some [card1, card2]) (ustr ''3'' # rest) st =
     create_flashcard_interactively tbl I word (Some [card1, card2]) rest
       (emit (InvalidInput (of_char CHR ''3'')) st) \<and>
   create_flashcard_interactively tbl I word (Some [card1, card2]) (ustr ''11'' # rest) st =
     create_flashcard_interactively tbl I word (Some [card1, card2]) rest
       (emit (InvalidInput (of_char CHR ''1'')) st)"
proof -
  have a: "validate tbl (length flashcards) {} u = Valid \<longleftrightarrow>
      (\<forall>c \<in> set u. \<exists>d. py_int tbl c = Inr d \<and> 1 \<le> d \<and> d \<le> length flashcards) \<and>
      distinct (map (int_value tbl) u)"
    by (simp add: validate_Valid_iff)
  have b: "(\<forall>c \<in> set u. c < 256) \<longrightarrow>
      (validate tbl (length flashcards) {} u = Valid \<longleftrightarrow>
         (\<forall>c \<in> set u. 49 \<le> c \<and> c \<le> 57 \<and> c \<le> 48 + length flashcards) \<and> distinct u)"
    using validate_latin1 by blast
  have c: "u \<noteq> [] \<and> validate tbl (length flashcards) {} u = Valid \<longrightarrow>
      create_flashcard_interactively tbl I word (Some flashcards) (u # rest) st =
        (None, rest,
         st\<lparr>collection := collection st @
                 map (\<lambda>c. note_for I word (flashcards ! (int_value tbl c - 1))) u,
            done_file := done_file st @ word @ [NL],
            pending_file := remove_word_from_pending word (pending_file st),
            log := log st @
                 map AddNote (map (\<lambda>c. note_for I word (flashcards ! (int_value tbl c - 1))) u) @
                 [AppendDone word, RemovePending word]\<rparr>)"
    using create_valid[of u tbl flashcards I word rest st] by (simp add: selected_notes_def)
  have d: "note_for I word flashcard =
     (if is_kana word
      then \<lparr>note_model = basic_model_id I,
            note_fields = [(''Expression'', example_sentence flashcard),
                           (''Meaning'', english flashcard)],
            note_deck = deck_id I\<rparr>
      else \<lparr>note_model = cloze_model_id I,
            note_fields = [(''Expression'', example_sentence flashcard),
                           (''Extra'', english flashcard)],
            note_deck = deck_id I\<rparr>)"
    by (simp add: note_for_def BASIC_JAPANESE_FIELD_def BASIC_ENGLISH_FIELD_def
        CLOZE_EXAMPLE_SENTENCE_FIELD_def CLOZE_ENGLISH_FIELD_def)
  have v21: "validate tbl (length [card1, card2]) {} (ustr ''21'') = Valid"
    and v3: "validate tbl (length [card1, card2]) {} (ustr ''3'') = Invalid (of_char CHR ''3'')"
    and v11: "validate tbl (length [card1, card2]) {} (ustr ''11'') = Invalid (of_char CHR ''1'')"
    using validate_examples[of tbl] by (simp_all add: numeral_2_eq_2)
  have n21: "selected_notes tbl I word [card1, card2] (ustr ''21'') =
       [note_for I word card2, note_for I word card1]"
    by (simp add: selected_notes_def ustr_def int_value_ascii_digit)
  have ne: "ustr ''21'' \<noteq> []" by (simp add: ustr_def)
  have e: "create_flashcard_interactively tbl I word (Some [card1, card2]) (ustr ''21'' # rest) st =
     (None, rest,
      st\<lparr>collection := collection st @ [note_for I word card2, note_for I word card1],
         done_file := done_file st @ word @ [NL],
         pending_file := remove_word_from_pending word (pending_file st),
         log := log st @ [AddNote (note_for I word card2), AddNote (note_for I word card1),
                          AppendDone word, RemovePending word]\<rparr>)"
    using create_valid[OF ne v21, of I word rest st] by (simp add: n21)
  note f = create_invalid[OF v3, of I word rest st]
  note g = create_invalid[OF v11, of I word rest st]
  show ?thesis
    using a b c d e f g create_skip[of tbl I word flashcards rest st] by (intro conjI)
qed

theorem selector_validation_witness:
  "validate (\<lambda>_. NotDigit) (length demo_cards) {} (ustr ''2'') = Valid \<and>
   create_flashcard_interactively (\<lambda>_. NotDigit) demo_ids [0x3042] (Some demo_cards) [ustr ''2'']
     (demo_state [0x3042, NL]) =
   (None, [],
    \<lparr>pending_file = [], done_file = [0x3042, NL], skipped_file = [],
     collection = [\<lparr>note_model = 3,
                    note_fields = [(''Expression'', ustr ''s2''), (''Meaning'', ustr ''e2'')],
                    note_deck = 1\<rparr>],
     log = [AddNote \<lparr>note_model = 3,
                    note_fields = [(''Expression'', ustr ''s2''), (''Meaning'', ustr ''e2'')],
                    note_deck = 1\<rparr>,
            AppendDone [0x3042], RemovePending [0x3042]]\<rparr>)"
proof -
  have small: "\<forall>c \<in> set (ustr ''2''). c < 256" by (simp add: ustr_def)
  have ok: "(\<forall>c \<in> set (ustr ''2''). 49 \<le> c \<and> c \<le> 57 \<and> c \<le> 48 + length demo_cards) \<and>
            distinct (ustr ''2'')"
    by (simp add: ustr_def demo_cards_def)
  have ne: "ustr ''2'' \<noteq> []" by (simp add: ustr_def)
  note inst = selector_validation[of "\<lambda>_. NotDigit" demo_cards "ustr ''2''" demo_ids "[0x3042]" "[]"
      "demo_state [0x3042, NL]"]
  from inst small ok have v: "validate (\<lambda>_. NotDigit) (length demo_cards) {} (ustr ''2'') = Valid"
    by blast
  from inst ne v have
    "create_flashcard_interactively (\<lambda>_. NotDigit) demo_ids [0x3042] (Some demo_cards) (ustr ''2'' # [])
       (demo_state [0x3042, NL]) =
     (None, [],
      (demo_state [0x3042, NL])\<lparr>collection := collection (demo_state [0x3042, NL]) @
           map (\<lambda>c. note_for demo_ids [0x3042] (demo_cards ! (int_value (\<lambda>_. NotDigit) c - 1))) (ustr ''2''),
         done_file := done_file (demo_state [0x3042, NL]) @ [0x3042] @ [NL],
         pending_file := remove_word_from_pending [0x3042] (pending_file (demo_state [0x3042, NL])),
         log := log (demo_state [0x3042, NL]) @
           map AddNote (map (\<lambda>c. note_for demo_ids [0x3042]
              (demo_cards ! (int_value (\<lambda>_. NotDigit) c - 1))) (ustr ''2'')) @
           [AppendDone [0x3042], RemovePending [0x3042]]\<rparr>)"
    by blast
  then show ?thesis using v
    by (simp add: run_defs int_value_def BASIC_JAPANESE_FIELD_def BASIC_ENGLISH_FIELD_def)
qed

text \<open>
  C4. The input consisting of the superscript two (U+00B2) is invalid: the character names
  no candidate. \<open>c.isdigit()\<close> holds for it and \<open>int(c)\<close> raises, so the call ends with
  \<open>ValueError\<close> and does not prompt again, whatever the candidates and the remaining input.
  The state is left as it was.
\<close>

theorem superscript_digit_raises:
  "py_isdigit tbl 178 \<and> py_int tbl 178 = Inl ValueError \<and>
   create_flashcard_interactively tbl I word (Some flashcards) ([178] # rest) st =
     (Some ValueError, rest, st)"
  by (simp add: create_flashcard_interactively_def py_isdigit_def py_int_def char_class_def)

text \<open>
  An input that the validation rejects with a message is answered by a new prompt: the
  call continues on the remaining input, and the state differs only by the message, which
  names a character of the input.
\<close>

lemma invalid_input_reprompts:
  "validate tbl (length flashcards) {} u = Invalid c \<Longrightarrow>
   c \<in> set u \<and>
   create_flashcard_interactively tbl I word (Some flashcards) (u # rest) st =
     create_flashcard_interactively tbl I word (Some flashcards) rest
       (st\<lparr>log := log st @ [InvalidInput c]\<rparr>)"
  using create_invalid[of tbl flashcards u c I word rest st] validate_Invalid_mem[of tbl "length flashcards" "{}" u c]
  by (simp add: emit_def)

section \<open>Properties of the prefetch pipeline\<close>

subsection \<open>How single events preserve the ordering guarantee\<close>

lemma precedes_snoc:
  "precedes a b L \<Longrightarrow> (e = b \<Longrightarrow> b \<notin> set L \<Longrightarrow> a \<in> set L) \<Longrightarrow> precedes a b (L @ [e])"
  by (auto simp: precedes_def takeWhile_append)

lemma in_flight_snoc: "in_flight (L @ [e]) = in_flight L + flight_delta e"
  by (simp add: in_flight_def)

lemma take_snoc_cases: "take n (L @ [e]) = take n L \<or> take n (L @ [e]) = L @ [e]"
  by (cases "n \<le> length L") auto

lemma bound_snoc:
  assumes "\<forall>n. 0 \<le> in_flight (take n L) \<and> in_flight (take n L) \<le> 1"
    and "0 \<le> in_flight (L @ [e])" and "in_flight (L @ [e]) \<le> 1"
  shows "0 \<le> in_flight (take n (L @ [e])) \<and> in_flight (take n (L @ [e])) \<le> 1"
  using assms take_snoc_cases[of n L e] by metis

lemma pipeline_ok_Retrieve:
  assumes "pipeline_ok ws L" and "in_flight L = 1"
  shows "pipeline_ok ws (L @ [Retrieve i])"
proof -
  have f: "in_flight (L @ [Retrieve i]) = 0"
    using assms(2) by (simp add: in_flight_snoc flight_delta_def)
  have b: "\<forall>n. 0 \<le> in_flight (take n (L @ [Retrieve i])) \<and> in_flight (take n (L @ [Retrieve i])) \<le> 1"
    using assms(1) f bound_snoc[of L "Retrieve i"] by (simp add: pipeline_ok_def)
  have p1: "\<forall>j w. precedes (Retrieve j) (Submit (Suc j) w) (L @ [Retrieve i])"
    using assms(1) by (auto simp: pipeline_ok_def intro!: precedes_snoc)
  have p2: "\<forall>j. Suc j < length ws \<longrightarrow> precedes (Submit (Suc j) (ws ! Suc j)) (Review j) (L @ [Retrieve i])"
    using assms(1) by (auto simp: pipeline_ok_def intro!: precedes_snoc)
  have s: "\<forall>j w. Submit j w \<in> set (L @ [Retrieve i]) \<longrightarrow> j < length ws \<and> w = ws ! j"
    using assms(1) by (auto simp: pipeline_ok_def)
  from s p1 p2 b show ?thesis unfolding pipeline_ok_def by blast
qed

lemma pipeline_ok_Submit:
  assumes "pipeline_ok ws L" and "in_flight L = 0" and "Retrieve i \<in> set L" and "Suc i < length ws"
  shows "pipeline_ok ws (L @ [Submit (Suc i) (ws ! Suc i)])"
proof -
  let ?e = "Submit (Suc i) (ws ! Suc i)"
  have f: "in_flight (L @ [?e]) = 1"
    using assms(2) by (simp add: in_flight_snoc flight_delta_def)
  have b: "\<forall>n. 0 \<le> in_flight (take n (L @ [?e])) \<and> in_flight (take n (L @ [?e])) \<le> 1"
    using assms(1) f bound_snoc[of L ?e] by (simp add: pipeline_ok_def)
  have p1: "\<forall>j w. precedes (Retrieve j) (Submit (Suc j) w) (L @ [?e])"
    using assms(1,3) by (auto simp: pipeline_ok_def intro!: precedes_snoc)
  have p2: "\<forall>j. Suc j < length ws \<longrightarrow> precedes (Submit (Suc j) (ws ! Suc j)) (Review j) (L @ [?e])"
    using assms(1) by (auto simp: pipeline_ok_def intro!: precedes_snoc)
  have s: "\<forall>j w. Submit j w \<in> set (L @ [?e]) \<longrightarrow> j < length ws \<and> w = ws ! j"
    using assms(1,4) by (auto simp: pipeline_ok_def)
  from s p1 p2 b show ?thesis unfolding pipeline_ok_def by blast
qed

lemma pipeline_ok_Review:
  assumes "pipeline_ok ws L" and "Suc i < length ws \<longrightarrow> Submit (Suc i) (ws ! Suc i) \<in> set L"
  shows "pipeline_ok ws (L @ [Review i])"
proof -
  have f: "in_flight (L @ [Review i]) = in_flight L"
    by (simp add: in_flight_snoc flight_delta_def)
  have "0 \<le> in_flight (take (length L) L) \<and> in_flight (take (length L) L) \<le> 1"
    using assms(1) unfolding pipeline_ok_def by blast
  then have b: "\<forall>n. 0 \<le> in_flight (take n (L @ [Review i])) \<and> in_flight (take n (L @ [Review i])) \<le> 1"
    using assms(1) f bound_snoc[of L "Review i"] by (simp add: pipeline_ok_def)
  have p1: "\<forall>j w. precedes (Retrieve j) (Submit (Suc j) w) (L @ [Review i])"
    using assms(1) by (auto simp: pipeline_ok_def intro!: precedes_snoc)
  have p2: "\<forall>j. Suc j < length ws \<longrightarrow> precedes (Submit (Suc j) (ws ! Suc j)) (Review j) (L @ [Review i])"
    using assms by (auto simp: pipeline_ok_def intro!: precedes_snoc)
  have s: "\<forall>j w. Submit j w \<in> set (L @ [Review i]) \<longrightarrow> j < length ws \<and> w = ws ! j"
    using assms(1) by (auto simp: pipeline_ok_def)
  from s p1 p2 b show ?thesis unfolding pipeline_ok_def by blast
qed

lemma pipeline_ok_selector_event:
  assumes "pipeline_ok ws L" and "selector_event e"
  shows "pipeline_ok ws (L @ [e])"
proof -
  have d: "flight_delta e = 0" and ns: "\<And>j w. e \<noteq> Submit j w" and nr: "\<And>j. e \<noteq> Review j"
    using assms(2) by (auto simp: selector_event_def flight_delta_def split: event.splits)
  have f: "in_flight (L @ [e]) = in_flight L"
    by (simp add: in_flight_snoc d)
  have "0 \<le> in_flight (take (length L) L) \<and> in_flight (take (length L) L) \<le> 1"
    using assms(1) unfolding pipeline_ok_def by blast
  then have b: "\<forall>n. 0 \<le> in_flight (take n (L @ [e])) \<and> in_flight (take n (L @ [e])) \<le> 1"
    using assms(1) f bound_snoc[of L e] by (simp add: pipeline_ok_def)
  have p1: "\<forall>j w. precedes (Retrieve j) (Submit (Suc j) w) (L @ [e])"
    using assms(1) ns by (auto simp: pipeline_ok_def intro!: precedes_snoc)
  have p2: "\<forall>j. Suc j < length ws \<longrightarrow> precedes (Submit (Suc j) (ws ! Suc j)) (Review j) (L @ [e])"
    using assms(1) nr by (auto simp: pipeline_ok_def intro!: precedes_snoc)
  have s: "\<forall>j w. Submit j w \<in> set (L @ [e]) \<longrightarrow> j < length ws \<and> w = ws ! j"
    using assms(1) ns by (auto simp: pipeline_ok_def)
  from s p1 p2 b show ?thesis unfolding pipeline_ok_def by blast
qed

lemma pipeline_ok_selector_events:
  "pipeline_ok ws L \<Longrightarrow> list_all selector_event es \<Longrightarrow> pipeline_ok ws (L @ es)"
proof (induction es rule: rev_induct)
  case Nil
  then show ?case by simp
next
  case (snoc e es)
  then have "pipeline_ok ws (L @ es)" and "selector_event e" by simp_all
  then have "pipeline_ok ws ((L @ es) @ [e])" by (rule pipeline_ok_selector_event)
  then show ?case by simp
qed

lemma in_flight_selector_events: "list_all selector_event es \<Longrightarrow> in_flight (L @ es) = in_flight L"
  by (induction es) (auto simp: in_flight_def selector_event_def flight_delta_def split: event.splits)

subsection \<open>Events of the selector\<close>

lemma create_cards_log:
  "create_cards tbl I word flashcards u st = (r, st') \<Longrightarrow>
   \<exists>es. log st' = log st @ es \<and> list_all selector_event es"
proof (induction u arbitrary: st)
  case Nil
  then show ?case by simp
next
  case (Cons c cs)
  show ?case
  proof (cases "py_int tbl c")
    case (Inl e)
    with Cons.prems show ?thesis by simp
  next
    case (Inr d)
    show ?thesis
    proof (cases "py_index flashcards (int d - 1)")
      case (Inl e)
      with Cons.prems \<open>py_int tbl c = Inr d\<close> show ?thesis by simp
    next
      case (Inr flashcard)
      let ?st1 = "add_flashcard_to_deck (note_for I word flashcard) st"
      from Cons.prems \<open>py_int tbl c = Inr d\<close> Inr
      have "create_cards tbl I word flashcards cs ?st1 = (r, st')" by simp
      then obtain es where "log st' = log ?st1 @ es" "list_all selector_event es"
        using Cons.IH by blast
      then have "log st' = log st @ (AddNote (note_for I word flashcard) # es) \<and>
                 list_all selector_event (AddNote (note_for I word flashcard) # es)"
        by (simp add: add_flashcard_to_deck_def emit_def selector_event_def)
      then show ?thesis by blast
    qed
  qed
qed

lemma select_loop_log:
  "select_loop tbl I word flashcards ins st = (r, ins', st') \<Longrightarrow>
   \<exists>es. log st' = log st @ es \<and> list_all selector_event es"
proof (induction ins arbitrary: st)
  case Nil
  then show ?case by simp
next
  case (Cons u rest)
  show ?case
  proof (cases "u = []")
    case True
    with Cons.prems have "log st' = log st @ [AppendSkipped word, RemovePending word]"
      by (auto simp: remove_word_from_pending_file_def mark_skipped_def emit_def)
    moreover have "list_all selector_event [AppendSkipped word, RemovePending word]"
      by (simp add: selector_event_def)
    ultimately show ?thesis by blast
  next
    case False
    show ?thesis
    proof (cases "validate tbl (length flashcards) {} u")
      case Valid
      obtain r1 st1 where cc: "create_cards tbl I word flashcards u st = (r1, st1)"
        by (cases "create_cards tbl I word flashcards u st")
      then obtain es where es: "log st1 = log st @ es" "list_all selector_event es"
        using create_cards_log by blast
      show ?thesis
      proof (cases r1)
        case None
        with Cons.prems False Valid cc
        have "st' = remove_word_from_pending_file word (mark_done word st1)" by simp
        then have "log st' = log st @ (es @ [AppendDone word, RemovePending word])"
          using es by (simp add: remove_word_from_pending_file_def mark_done_def emit_def)
        moreover have "list_all selector_event (es @ [AppendDone word, RemovePending word])"
          using es by (simp add: selector_event_def)
        ultimately show ?thesis by blast
      next
        case (Some e)
        with Cons.prems False Valid cc have "st' = st1" by simp
        with es show ?thesis by blast
      qed
    next
      case (Invalid c)
      from Cons.prems
      have "select_loop tbl I word flashcards rest (emit (InvalidInput c) st) = (r, ins', st')"
        unfolding select_loop_invalid[OF Invalid] .
      then obtain es where "log st' = log (emit (InvalidInput c) st) @ es" "list_all selector_event es"
        using Cons.IH by blast
      then have "log st' = log st @ (InvalidInput c # es) \<and> list_all selector_event (InvalidInput c # es)"
        by (simp add: emit_def selector_event_def)
      then show ?thesis by blast
    next
      case (Raised e)
      from Cons.prems have "st' = st" unfolding select_loop_raised[OF Raised] by simp
      then have "log st' = log st @ [] \<and> list_all selector_event []" by simp
      then show ?thesis by blast
    qed
  qed
qed

lemma create_log:
  "create_flashcard_interactively tbl I word completion ins st = (r, ins', st') \<Longrightarrow>
   \<exists>es. log st' = log st @ es \<and> list_all selector_event es"
proof (cases completion)
  case None
  assume "create_flashcard_interactively tbl I word completion ins st = (r, ins', st')"
  with None have "log st' = log st @ [] \<and> list_all selector_event []"
    by (simp add: create_flashcard_interactively_def)
  then show ?thesis by blast
next
  case (Some flashcards)
  assume "create_flashcard_interactively tbl I word completion ins st = (r, ins', st')"
  with Some show ?thesis by (simp add: create_flashcard_interactively_def select_loop_log)
qed

subsection \<open>The loop\<close>

declare main_loop.simps [simp del]

lemma main_loop_done: "\<not> i < length ws \<Longrightarrow> main_loop W I ws i fut ins st = (None, ins, st)"
  by (subst main_loop.simps) simp

lemma main_loop_failed:
  "i < length ws \<Longrightarrow> main_loop W I ws i None ins st = (Some RequestError, ins, st)"
  by (subst main_loop.simps) simp

lemma main_loop_step:
  assumes "i < length ws"
    and "create_flashcard_interactively (digit_table W) I (ws ! i) completion ins
           (prefetch_state ws i st) = (r1, ins1, st3)"
  shows "main_loop W I ws i (Some completion) ins st =
           (case r1 of
              Some e \<Rightarrow> (Some e, ins1, st3)
            | None \<Rightarrow> main_loop W I ws (i + 1) (next_future W ws i (Some completion)) ins1 st3)"
  using assms
  by (subst main_loop.simps) (auto simp: Let_def prefetch_state_def next_future_def split: option.splits)

lemma log_prefetch_state:
  "log (prefetch_state ws i st) =
     log st @ [Retrieve i] @ (if Suc i < length ws then [Submit (Suc i) (ws ! Suc i)] else []) @ [Review i]"
  by (simp add: prefetch_state_def emit_def)

lemma prefetch_ok:
  assumes ok: "pipeline_ok ws (log st)" and fl: "in_flight (log st) = 1"
  shows "pipeline_ok ws (log (prefetch_state ws i st)) \<and>
         in_flight (log (prefetch_state ws i st)) = (if Suc i < length ws then 1 else 0)"
proof -
  let ?L1 = "log st @ [Retrieve i]"
  have ok1: "pipeline_ok ws ?L1" using ok fl by (rule pipeline_ok_Retrieve)
  have fl1: "in_flight ?L1 = 0" using fl by (simp add: in_flight_def flight_delta_def)
  show ?thesis
  proof (cases "Suc i < length ws")
    case True
    let ?L2 = "?L1 @ [Submit (Suc i) (ws ! Suc i)]"
    have ok2: "pipeline_ok ws ?L2" using ok1 fl1 _ True by (rule pipeline_ok_Submit) simp
    have fl2: "in_flight ?L2 = 1" using fl1 by (simp add: in_flight_def flight_delta_def)
    have "pipeline_ok ws (?L2 @ [Review i])" using ok2 by (rule pipeline_ok_Review) simp
    moreover have "in_flight (?L2 @ [Review i]) = 1"
      using fl2 by (simp add: in_flight_def flight_delta_def)
    ultimately show ?thesis using True by (simp add: log_prefetch_state)
  next
    case False
    have "pipeline_ok ws (?L1 @ [Review i])" using ok1 by (rule pipeline_ok_Review) (simp add: False)
    moreover have "in_flight (?L1 @ [Review i]) = 0"
      using fl1 by (simp add: in_flight_def flight_delta_def)
    ultimately show ?thesis using False by (simp add: log_prefetch_state)
  qed
qed

lemma iteration_done_append: "iteration_done ws j L \<Longrightarrow> iteration_done ws j (L @ es)"
  by (auto simp: iteration_done_def)

lemma iteration_done_prefetch: "iteration_done ws i (log (prefetch_state ws i st))"
  by (simp add: iteration_done_def log_prefetch_state)

lemma main_loop_pipeline:
  assumes "main_loop W I ws i fut ins st = (r, ins', st')"
    and "pipeline_ok ws (log st)"
    and "in_flight (log st) = (if i < length ws then 1 else 0)"
  shows "pipeline_ok ws (log st') \<and> (\<exists>es. log st' = log st @ es) \<and>
         (r = None \<longrightarrow> (\<forall>j. i \<le> j \<and> j < length ws \<longrightarrow> iteration_done ws j (log st')))"
  using assms
proof (induction "length ws - i" arbitrary: i fut ins st)
  case 0
  then have "\<not> i < length ws" by simp
  then have "main_loop W I ws i fut ins st = (None, ins, st)" by (rule main_loop_done)
  with "0.prems" have "st' = st" by simp
  with "0.prems" \<open>\<not> i < length ws\<close> show ?case by auto
next
  case (Suc n)
  then have lt: "i < length ws" by simp
  show ?case
  proof (cases fut)
    case None
    with lt Suc.prems have "st' = st" "r = Some RequestError" by (simp_all add: main_loop_failed)
    with Suc.prems show ?thesis by simp
  next
    case (Some completion)
    let ?st2 = "prefetch_state ws i st"
    obtain r1 ins1 st3 where cr:
      "create_flashcard_interactively (digit_table W) I (ws ! i) completion ins ?st2 = (r1, ins1, st3)"
      by (cases "create_flashcard_interactively (digit_table W) I (ws ! i) completion ins ?st2") auto
    from Suc.prems lt have fl: "in_flight (log st) = 1" by simp
    have ok2: "pipeline_ok ws (log ?st2)"
      and fl2: "in_flight (log ?st2) = (if Suc i < length ws then 1 else 0)"
      using prefetch_ok[OF Suc.prems(2) fl, of i] by simp_all
    obtain es where es: "log st3 = log ?st2 @ es" "list_all selector_event es"
      using create_log[OF cr] by blast
    have ok3: "pipeline_ok ws (log st3)"
      using ok2 es by (simp add: pipeline_ok_selector_events)
    have fl3: "in_flight (log st3) = (if Suc i < length ws then 1 else 0)"
      using fl2 es by (simp add: in_flight_selector_events)
    have ext3: "log st3 = log st @ ([Retrieve i] @
        (if Suc i < length ws then [Submit (Suc i) (ws ! Suc i)] else []) @ [Review i] @ es)"
      using es by (simp add: log_prefetch_state)
    have done3: "iteration_done ws i (log st3)"
      using es iteration_done_prefetch[of ws i st] by (simp add: iteration_done_append)
    note step = main_loop_step[OF lt cr]
    show ?thesis
    proof (cases r1)
      case (Some e)
      with step Suc.prems(1) \<open>fut = Some completion\<close> have "st' = st3" "r = Some e" by simp_all
      with ok3 ext3 show ?thesis by blast
    next
      case None
      with step Suc.prems(1) \<open>fut = Some completion\<close>
      have run: "main_loop W I ws (i + 1) (next_future W ws i (Some completion)) ins1 st3 = (r, ins', st')"
        by simp
      have n: "n = length ws - (i + 1)" using Suc.hyps(2) by simp
      have fl3': "in_flight (log st3) = (if i + 1 < length ws then 1 else 0)" using fl3 by simp
      from Suc.hyps(1)[OF n run ok3 fl3']
      have ok': "pipeline_ok ws (log st')" and ext': "\<exists>es. log st' = log st3 @ es"
        and done': "r = None \<longrightarrow> (\<forall>j. i + 1 \<le> j \<and> j < length ws \<longrightarrow> iteration_done ws j (log st'))"
        by simp_all
      from ext' obtain es' where es': "log st' = log st3 @ es'" by blast
      have "\<exists>es. log st' = log st @ es" using es' ext3 by simp
      moreover have "iteration_done ws i (log st')" using done3 es' by (simp add: iteration_done_append)
      then have "r = None \<longrightarrow> (\<forall>j. i \<le> j \<and> j < length ws \<longrightarrow> iteration_done ws j (log st'))"
        using done' by (metis Suc_eq_plus1 Suc_leI le_neq_implies_less)
      ultimately show ?thesis using ok' by blast
    qed
  qed
qed

subsection \<open>The pipeline from the first request on\<close>

lemma pipeline_ok_first: "pipeline_ok (w0 # ws) [Submit 0 w0] \<and> in_flight [Submit 0 w0] = 1"
proof -
  have "0 \<le> in_flight (take n [Submit 0 w0]) \<and> in_flight (take n [Submit 0 w0]) \<le> 1" for n
    by (cases n) (simp_all add: in_flight_def flight_delta_def)
  then show ?thesis
    by (auto simp: pipeline_ok_def precedes_def in_flight_def flight_delta_def)
qed

lemma process_pending_pipeline:
  assumes "process_pending W I ws ins st = (r, ins', st')" and "log st = []"
  shows "pipeline_ok ws (log st') \<and>
         (r = None \<longrightarrow> (\<forall>i < length ws. Submit i (ws ! i) \<in> set (log st') \<and> iteration_done ws i (log st')))"
proof (cases ws)
  case Nil
  with assms have "log st' = []" by (simp add: process_pending_def)
  with Nil show ?thesis by (simp add: pipeline_ok_def precedes_def in_flight_def)
next
  case (Cons w0 rest)
  let ?st0 = "emit (Submit 0 w0) st"
  have l0: "log ?st0 = [Submit 0 w0]" using assms(2) by (simp add: emit_def)
  from assms(1) Cons
  have run: "main_loop W I ws 0 (request_flashcards_from_llm W 0 w0) ins ?st0 = (r, ins', st')"
    by (simp add: process_pending_def)
  have ok0: "pipeline_ok ws (log ?st0)" using pipeline_ok_first[of w0 rest] Cons l0 by simp
  have fl0: "in_flight (log ?st0) = (if 0 < length ws then 1 else 0)"
    using pipeline_ok_first[of w0 rest] Cons l0 by simp
  from main_loop_pipeline[OF run ok0 fl0]
  have ok: "pipeline_ok ws (log st')" and ext: "\<exists>es. log st' = log ?st0 @ es"
    and dn: "r = None \<longrightarrow> (\<forall>j. 0 \<le> j \<and> j < length ws \<longrightarrow> iteration_done ws j (log st'))"
    by simp_all
  from ext l0 have s0: "Submit 0 w0 \<in> set (log st')" by auto
  have "Submit i (ws ! i) \<in> set (log st')" if "r = None" "i < length ws" for i
  proof (cases i)
    case 0
    with s0 Cons show ?thesis by simp
  next
    case (Suc k)
    with that dn have "iteration_done ws k (log st')" by simp
    with Suc that show ?thesis by (simp add: iteration_done_def)
  qed
  with ok dn show ?thesis by simp
qed

text \<open>
  C1. In the log of every run of the pipeline over the pending words, started with an empty
  log and whether it ends normally or with an exception: a request is submitted only for an
  index below the length of the list, and for the word at that index; the request for
  index \<open>i + 1\<close> is submitted after the result for index \<open>i\<close> was retrieved and, if the review
  of index \<open>i\<close> begins at all, before it; and at every point of the log the number of
  requests submitted and not yet retrieved is zero or one. When the run ends normally,
  every index was submitted, retrieved and reviewed.
\<close>

theorem prefetch_pipeline_order:
  "process_pending W I pending_words ins st = (r, ins', st') \<and> log st = [] \<longrightarrow>
     (\<forall>j w. Submit j w \<in> set (log st') \<longrightarrow> j < length pending_words \<and> w = pending_words ! j) \<and>
     (\<forall>j w. precedes (Retrieve j) (Submit (Suc j) w) (log st')) \<and>
     (\<forall>j. Suc j < length pending_words \<longrightarrow>
          precedes (Submit (Suc j) (pending_words ! Suc j)) (Review j) (log st')) \<and>
     (\<forall>n. 0 \<le> in_flight (take n (log st')) \<and> in_flight (take n (log st')) \<le> 1) \<and>
     (r = None \<longrightarrow>
        (\<forall>i < length pending_words.
           Submit i (pending_words ! i) \<in> set (log st') \<and> Retrieve i \<in> set (log st') \<and>
           Review i \<in> set (log st')))"
proof
  assume a: "process_pending W I pending_words ins st = (r, ins', st') \<and> log st = []"
  then have run: "process_pending W I pending_words ins st = (r, ins', st')" and e: "log st = []"
    by simp_all
  from process_pending_pipeline[OF run e]
  have ok: "pipeline_ok pending_words (log st')"
    and dn: "r = None \<longrightarrow> (\<forall>i < length pending_words.
        Submit i (pending_words ! i) \<in> set (log st') \<and> iteration_done pending_words i (log st'))"
    by simp_all
  from dn have dn': "r = None \<longrightarrow>
        (\<forall>i < length pending_words.
           Submit i (pending_words ! i) \<in> set (log st') \<and> Retrieve i \<in> set (log st') \<and>
           Review i \<in> set (log st'))"
    by (simp add: iteration_done_def)
  from ok dn' show "(\<forall>j w. Submit j w \<in> set (log st') \<longrightarrow> j < length pending_words \<and> w = pending_words ! j) \<and>
     (\<forall>j w. precedes (Retrieve j) (Submit (Suc j) w) (log st')) \<and>
     (\<forall>j. Suc j < length pending_words \<longrightarrow>
          precedes (Submit (Suc j) (pending_words ! Suc j)) (Review j) (log st')) \<and>
     (\<forall>n. 0 \<le> in_flight (take n (log st')) \<and> in_flight (take n (log st')) \<le> 1) \<and>
     (r = None \<longrightarrow>
        (\<forall>i < length pending_words.
           Submit i (pending_words ! i) \<in> set (log st') \<and> Retrieve i \<in> set (log st') \<and>
           Review i \<in> set (log st')))"
    unfolding pipeline_ok_def by blast
qed

lemma demo_pipeline_run:
  "process_pending demo_world demo_ids [ustr ''w0'', ustr ''w1'', ustr ''w2''] [[], [], []]
     (demo_state []) =
   (None, [],
    \<lparr>pending_file = [], done_file = [],
     skipped_file = ustr ''w0'' @ [NL] @ ustr ''w1'' @ [NL] @ ustr ''w2'' @ [NL],
     collection = [],
     log = [Submit 0 (ustr ''w0''), Retrieve 0, Submit 1 (ustr ''w1''), Review 0,
            AppendSkipped (ustr ''w0''), RemovePending (ustr ''w0''),
            Retrieve 1, Submit 2 (ustr ''w2''), Review 1,
            AppendSkipped (ustr ''w1''), RemovePending (ustr ''w1''),
            Retrieve 2, Review 2,
            AppendSkipped (ustr ''w2''), RemovePending (ustr ''w2'')]\<rparr>)"
  by (simp add: process_pending_def main_loop.simps request_flashcards_from_llm_def demo_world_def
      run_defs)

theorem prefetch_pipeline_order_witness:
  "fst demo_pipeline_result = None \<and>
   log (snd (snd demo_pipeline_result)) =
     [Submit 0 (ustr ''w0''), Retrieve 0, Submit 1 (ustr ''w1''), Review 0,
      AppendSkipped (ustr ''w0''), RemovePending (ustr ''w0''),
      Retrieve 1, Submit 2 (ustr ''w2''), Review 1,
      AppendSkipped (ustr ''w1''), RemovePending (ustr ''w1''),
      Retrieve 2, Review 2,
      AppendSkipped (ustr ''w2''), RemovePending (ustr ''w2'')] \<and>
   precedes (Retrieve 0) (Submit 1 (ustr ''w1'')) (log (snd (snd demo_pipeline_result))) \<and>
   precedes (Submit 1 (ustr ''w1'')) (Review 0) (log (snd (snd demo_pipeline_result))) \<and>
   precedes (Retrieve 1) (Submit 2 (ustr ''w2'')) (log (snd (snd demo_pipeline_result))) \<and>
   precedes (Submit 2 (ustr ''w2'')) (Review 1) (log (snd (snd demo_pipeline_result))) \<and>
   in_flight (take 3 (log (snd (snd demo_pipeline_result)))) \<le> 1 \<and>
   Review 2 \<in> set (log (snd (snd demo_pipeline_result)))"
proof -
  obtain st' where run: "demo_pipeline_result = (None, [], st')"
    and lg: "log st' =
     [Submit 0 (ustr ''w0''), Retrieve 0, Submit 1 (ustr ''w1''), Review 0,
      AppendSkipped (ustr ''w0''), RemovePending (ustr ''w0''),
      Retrieve 1, Submit 2 (ustr ''w2''), Review 1,
      AppendSkipped (ustr ''w1''), RemovePending (ustr ''w1''),
      Retrieve 2, Review 2,
      AppendSkipped (ustr ''w2''), RemovePending (ustr ''w2'')]"
    using demo_pipeline_run by (simp add: demo_pipeline_result_def)
  have e: "log (demo_state []) = []" by (simp add: demo_state_def)
  from run have p: "process_pending demo_world demo_ids [ustr ''w0'', ustr ''w1'', ustr ''w2'']
      [[], [], []] (demo_state []) = (None, [], st') \<and> log (demo_state []) = []"
    using e by (simp add: demo_pipeline_result_def)
  note c = prefetch_pipeline_order[THEN mp, OF p]
  from c have a: "\<forall>j w. precedes (Retrieve j) (Submit (Suc j) w) (log st')" by blast
  from c have b: "\<forall>j. Suc j < length [ustr ''w0'', ustr ''w1'', ustr ''w2''] \<longrightarrow>
      precedes (Submit (Suc j) ([ustr ''w0'', ustr ''w1'', ustr ''w2''] ! Suc j)) (Review j) (log st')"
    by blast
  from c have f: "\<forall>n. 0 \<le> in_flight (take n (log st')) \<and> in_flight (take n (log st')) \<le> 1"
    by blast
  from c have d: "\<forall>i < length [ustr ''w0'', ustr ''w1'', ustr ''w2''].
      Submit i ([ustr ''w0'', ustr ''w1'', ustr ''w2''] ! i) \<in> set (log st') \<and>
      Retrieve i \<in> set (log st') \<and> Review i \<in> set (log st')"
    by blast
  have a0: "precedes (Retrieve 0) (Submit 1 (ustr ''w1'')) (log st')" using a[rule_format, of 0] by simp
  have a1: "precedes (Retrieve 1) (Submit 2 (ustr ''w2'')) (log st')"
    using a[rule_format, of 1 "ustr ''w2''"] by (simp add: numeral_2_eq_2)
  have b0: "precedes (Submit 1 (ustr ''w1'')) (Review 0) (log st')" using b[rule_format, of 0] by simp
  have b1: "precedes (Submit 2 (ustr ''w2'')) (Review 1) (log st')"
    using b[rule_format, of 1] by (simp add: numeral_2_eq_2)
  have f3: "in_flight (take 3 (log st')) \<le> 1" using f by blast
  have d2: "Review 2 \<in> set (log st')" using d[rule_format, of 2] by simp
  have r: "fst demo_pipeline_result = None" and s: "snd (snd demo_pipeline_result) = st'"
    unfolding run by simp_all
  show ?thesis unfolding s using r lg a0 b0 a1 b1 f3 d2 by blast
qed

section \<open>Properties of the main program\<close>

subsection \<open>The guard on the pending words\<close>

lemma selector_events_no_NoWords: "list_all selector_event es \<Longrightarrow> NoWords \<notin> set es"
  by (induction es) (auto simp: selector_event_def)

lemma main_loop_log:
  "main_loop W I ws i fut ins st = (r, ins', st') \<Longrightarrow> \<exists>es. log st' = log st @ es \<and> NoWords \<notin> set es"
proof (induction "length ws - i" arbitrary: i fut ins st)
  case 0
  then have "\<not> i < length ws" by simp
  then have "main_loop W I ws i fut ins st = (None, ins, st)" by (rule main_loop_done)
  with "0.prems" have "log st' = log st @ [] \<and> NoWords \<notin> set []" by simp
  then show ?case by blast
next
  case (Suc n)
  then have lt: "i < length ws" by simp
  show ?case
  proof (cases fut)
    case None
    with lt Suc.prems have "log st' = log st @ [] \<and> NoWords \<notin> set []"
      by (simp add: main_loop_failed)
    then show ?thesis by blast
  next
    case (Some completion)
    let ?st2 = "prefetch_state ws i st"
    obtain r1 ins1 st3 where cr:
      "create_flashcard_interactively (digit_table W) I (ws ! i) completion ins ?st2 = (r1, ins1, st3)"
      by (cases "create_flashcard_interactively (digit_table W) I (ws ! i) completion ins ?st2") auto
    obtain es where es: "log st3 = log ?st2 @ es" "list_all selector_event es"
      using create_log[OF cr] by blast
    let ?pre = "[Retrieve i] @ (if Suc i < length ws then [Submit (Suc i) (ws ! Suc i)] else []) @
                [Review i] @ es"
    have ext3: "log st3 = log st @ ?pre" using es by (simp add: log_prefetch_state)
    have no3: "NoWords \<notin> set ?pre" using selector_events_no_NoWords[OF es(2)] by simp
    note step = main_loop_step[OF lt cr]
    show ?thesis
    proof (cases r1)
      case (Some e)
      with step Suc.prems(1) \<open>fut = Some completion\<close> have "st' = st3" by simp
      with ext3 no3 show ?thesis by blast
    next
      case None
      with step Suc.prems(1) \<open>fut = Some completion\<close>
      have run: "main_loop W I ws (i + 1) (next_future W ws i (Some completion)) ins1 st3 = (r, ins', st')"
        by simp
      have n: "n = length ws - (i + 1)" using Suc.hyps(2) by simp
      from Suc.hyps(1)[OF n run] obtain es' where es': "log st' = log st3 @ es'" "NoWords \<notin> set es'"
        by blast
      have "log st' = log st @ (?pre @ es')" using es' ext3 by simp
      moreover have "NoWords \<notin> set (?pre @ es')" using no3 es'(2) by simp
      ultimately show ?thesis by blast
    qed
  qed
qed

lemma process_pending_log:
  assumes "process_pending W I ws ins st = (r, ins', st')"
  shows "\<exists>es. log st' = log st @ es \<and> NoWords \<notin> set es"
proof (cases ws)
  case Nil
  with assms have "log st' = log st @ [] \<and> NoWords \<notin> set []" by (simp add: process_pending_def)
  then show ?thesis by blast
next
  case (Cons w0 rest)
  with assms
  have "main_loop W I ws 0 (request_flashcards_from_llm W 0 w0) ins (emit (Submit 0 w0) st) = (r, ins', st')"
    by (simp add: process_pending_def)
  then obtain es where "log st' = log (emit (Submit 0 w0) st) @ es" "NoWords \<notin> set es"
    using main_loop_log by blast
  then have "log st' = log st @ (Submit 0 w0 # es) \<and> NoWords \<notin> set (Submit 0 w0 # es)"
    by (simp add: emit_def)
  then show ?thesis by blast
qed

lemma main_cases:
  assumes "main W ins st = (r, ins', st')"
  shows "(r \<noteq> None \<and> st' = st) \<or>
         (\<exists>ws st1. ws \<noteq> [] \<and> log st1 = log st \<and>
            process_pending W (run_ids W) ws ins st1 = (r, ins', st'))"
proof (cases "missing_id (deck_lookup W) \<or> missing_id (cloze_lookup W) \<or> missing_id (basic_lookup W)")
  case True
  with assms show ?thesis by (auto simp: main_def split: if_splits)
next
  case False
  obtain cw where
    cw: "get_new_words_from_multiline_string (set_order W) (random_draw W) (new_words W) = Inr cw"
    using get_new_words_perm[of "new_words W" "set_order W" "random_draw W"] by blast
  define st1 where "st1 = (if cw \<noteq> []
     then st\<lparr>pending_file := append_new_pending_words cw (load_pending_words (pending_file st))
              (pending_file st)\<rparr> else st)"
  define ws where "ws = (if cw \<noteq> [] then load_pending_words (pending_file st1)
     else load_pending_words (pending_file st))"
  have ne: "ws \<noteq> []" by (simp add: ws_def load_pending_words_def split_nl_not_Nil)
  have l: "log st1 = log st" by (simp add: st1_def)
  have "main W ins st = process_pending W (run_ids W) ws ins st1"
    using False cw by (simp add: main_def Let_def run_ids_def ws_def st1_def load_pending_words_def split_nl_not_Nil)
  with assms have "process_pending W (run_ids W) ws ins st1 = (r, ins', st')" by simp
  with ne l show ?thesis by blast
qed

lemma main_never_NoWords:
  assumes "main W ins st = (r, ins', st')" and "NoWords \<notin> set (log st)"
  shows "NoWords \<notin> set (log st')"
proof -
  from main_cases[OF assms(1)] show ?thesis
  proof
    assume "r \<noteq> None \<and> st' = st"
    with assms(2) show ?thesis by simp
  next
    assume "\<exists>ws st1. ws \<noteq> [] \<and> log st1 = log st \<and>
            process_pending W (run_ids W) ws ins st1 = (r, ins', st')"
    then obtain ws st1 where l: "log st1 = log st"
      and p: "process_pending W (run_ids W) ws ins st1 = (r, ins', st')" by blast
    from process_pending_log[OF p] obtain es where "log st' = log st1 @ es" "NoWords \<notin> set es"
      by blast
    with l assms(2) show ?thesis by simp
  qed
qed

lemma new_words_constant_empty:
  "get_new_words_from_multiline_string ord rnd NEW_WORDS = Inr []"
  by (simp add: get_new_words_from_multiline_string_def NEW_WORDS_def NL_def py_strip_def
      py_lstrip_def py_rstrip_def py_shuffle_def py_list_of_set_def)

lemma main_no_new_words:
  assumes "new_words W = NEW_WORDS"
    and "\<not> missing_id (deck_lookup W)" "\<not> missing_id (cloze_lookup W)" "\<not> missing_id (basic_lookup W)"
  shows "main W ins st =
           process_pending W (run_ids W) (load_pending_words (pending_file st)) ins st"
  using assms
  by (simp add: main_def new_words_constant_empty Let_def run_ids_def load_pending_words_def
      split_nl_not_Nil)

lemma main_None_ids:
  "main W ins st = (None, ins', st') \<Longrightarrow>
   \<not> missing_id (deck_lookup W) \<and> \<not> missing_id (cloze_lookup W) \<and> \<not> missing_id (basic_lookup W)"
  by (auto simp: main_def split: if_splits)

subsection \<open>Blank entries\<close>

lemma main_loop_reviews_first:
  assumes "i < length ws" and "main_loop W I ws i (Some completion) ins st = (r, ins', st')"
  shows "Review i \<in> set (log st')"
proof -
  let ?st2 = "prefetch_state ws i st"
  obtain r1 ins1 st3 where cr:
    "create_flashcard_interactively (digit_table W) I (ws ! i) completion ins ?st2 = (r1, ins1, st3)"
    by (cases "create_flashcard_interactively (digit_table W) I (ws ! i) completion ins ?st2") auto
  obtain es where "log st3 = log ?st2 @ es" using create_log[OF cr] by blast
  then have r3: "Review i \<in> set (log st3)" by (simp add: log_prefetch_state)
  note step = main_loop_step[OF assms(1) cr]
  show ?thesis
  proof (cases r1)
    case (Some e)
    with step assms(2) have "st' = st3" by simp
    with r3 show ?thesis by simp
  next
    case None
    with step assms(2)
    have "main_loop W I ws (i + 1) (next_future W ws i (Some completion)) ins1 st3 = (r, ins', st')"
      by simp
    then obtain es' where "log st' = log st3 @ es'" using main_loop_log by blast
    with r3 show ?thesis by simp
  qed
qed

lemma empty_file_run:
  assumes m: "main W ins st = (r, ins', st')" and nw: "new_words W = NEW_WORDS"
    and pf: "pending_file st = []"
    and ids: "\<not> missing_id (deck_lookup W)" "\<not> missing_id (cloze_lookup W)"
      "\<not> missing_id (basic_lookup W)"
  shows "Submit 0 [] \<in> set (log st') \<and>
         (llm W 0 BASIC_PROMPT_PATH [] \<noteq> None \<longrightarrow> Review 0 \<in> set (log st'))"
proof -
  let ?st0 = "emit (Submit 0 []) st"
  let ?fut = "llm W 0 BASIC_PROMPT_PATH []"
  have "main W ins st = process_pending W (run_ids W) [[]] ins st"
    using main_no_new_words[OF nw ids, of ins st] pf by (simp add: load_pending_words_def)
  with m have run: "main_loop W (run_ids W) [[]] 0 ?fut ins ?st0 = (r, ins', st')"
    by (simp add: process_pending_def request_flashcards_from_llm_def prompt_path_def is_kana_def)
  then obtain es where "log st' = log ?st0 @ es" using main_loop_log by blast
  then have s: "Submit 0 [] \<in> set (log st')" by (simp add: emit_def)
  have "Review 0 \<in> set (log st')" if "?fut \<noteq> None"
  proof -
    from that obtain completion where "?fut = Some completion" by blast
    with run have "main_loop W (run_ids W) [[]] 0 (Some completion) ins ?st0 = (r, ins', st')"
      by simp
    then show ?thesis using main_loop_reviews_first[of 0 "[[]]"] by simp
  qed
  with s show ?thesis by blast
qed

lemma completed_run_reviews_all:
  assumes m: "main W ins st = (None, ins', st')" and nw: "new_words W = NEW_WORDS"
    and lg: "log st = []" and i: "i < length (load_pending_words (pending_file st))"
  shows "Submit i (load_pending_words (pending_file st) ! i) \<in> set (log st') \<and>
         Review i \<in> set (log st')"
proof -
  let ?ws = "load_pending_words (pending_file st)"
  from main_None_ids[OF m] have ids: "\<not> missing_id (deck_lookup W)"
    "\<not> missing_id (cloze_lookup W)" "\<not> missing_id (basic_lookup W)" by simp_all
  from m main_no_new_words[OF nw ids, of ins st]
  have "process_pending W (run_ids W) ?ws ins st = (None, ins', st')" by simp
  from process_pending_pipeline[OF this lg] i show ?thesis by (simp add: iteration_done_def)
qed

text \<open>
  C10. Loading the pending words splits the content of the file at every newline and never
  gives the empty list: the empty file gives the one-element list of the empty word, and a
  file that ends in a newline gives a last entry that is the empty word. The guard
  \<open>if not pending_words\<close> therefore never fires: no run prints \<open>No words to process.\<close> With
  \<open>_NEW_WORDS\<close> as in the source, a run that ends normally has submitted a request for and
  reviewed every entry of the list, the empty ones included, in particular the last entry
  of a newline-terminated file; and on the empty file the request for the empty word is
  submitted in every run that passes the start-up checks, and the word is reviewed when
  that request succeeds.
\<close>

theorem blank_entries_are_pending_words:
  "load_pending_words s = split_nl s \<and> load_pending_words s \<noteq> [] \<and>
   load_pending_words [] = [[]] \<and>
   load_pending_words (s @ [NL]) = load_pending_words s @ [[]] \<and>
   (main W ins st = (r, ins', st') \<and> NoWords \<notin> set (log st) \<longrightarrow> NoWords \<notin> set (log st')) \<and>
   (main W ins st = (None, ins', st') \<and> new_words W = NEW_WORDS \<and> log st = [] \<longrightarrow>
      (\<forall>i < length (load_pending_words (pending_file st)).
         Submit i (load_pending_words (pending_file st) ! i) \<in> set (log st') \<and>
         Review i \<in> set (log st'))) \<and>
   (main W ins st = (None, ins', st') \<and> new_words W = NEW_WORDS \<and> log st = [] \<and>
    pending_file st = s @ [NL] \<longrightarrow>
      Submit (length (load_pending_words s)) [] \<in> set (log st') \<and>
      Review (length (load_pending_words s)) \<in> set (log st')) \<and>
   (main W ins st = (r, ins', st') \<and> new_words W = NEW_WORDS \<and> pending_file st = [] \<and>
    \<not> missing_id (deck_lookup W) \<and> \<not> missing_id (cloze_lookup W) \<and>
    \<not> missing_id (basic_lookup W) \<longrightarrow>
      Submit 0 [] \<in> set (log st') \<and>
      (llm W 0 BASIC_PROMPT_PATH [] \<noteq> None \<longrightarrow> Review 0 \<in> set (log st')))"
proof -
  have a: "load_pending_words s = split_nl s \<and> load_pending_words s \<noteq> [] \<and>
      load_pending_words [] = [[]] \<and>
      load_pending_words (s @ [NL]) = load_pending_words s @ [[]]"
    by (simp add: load_pending_words_def split_nl_not_Nil split_nl_snoc_NL)
  have b: "main W ins st = (r, ins', st') \<and> NoWords \<notin> set (log st) \<longrightarrow> NoWords \<notin> set (log st')"
    using main_never_NoWords by blast
  have c: "main W ins st = (None, ins', st') \<and> new_words W = NEW_WORDS \<and> log st = [] \<longrightarrow>
      (\<forall>i < length (load_pending_words (pending_file st)).
         Submit i (load_pending_words (pending_file st) ! i) \<in> set (log st') \<and>
         Review i \<in> set (log st'))"
    using completed_run_reviews_all by blast
  have d: "main W ins st = (None, ins', st') \<and> new_words W = NEW_WORDS \<and> log st = [] \<and>
    pending_file st = s @ [NL] \<longrightarrow>
      Submit (length (load_pending_words s)) [] \<in> set (log st') \<and>
      Review (length (load_pending_words s)) \<in> set (log st')"
  proof
    assume h: "main W ins st = (None, ins', st') \<and> new_words W = NEW_WORDS \<and> log st = [] \<and>
      pending_file st = s @ [NL]"
    let ?k = "length (load_pending_words s)"
    from h have ws: "load_pending_words (pending_file st) = load_pending_words s @ [[]]"
      by (simp add: load_pending_words_def split_nl_snoc_NL)
    then have k: "?k < length (load_pending_words (pending_file st))"
      and e: "load_pending_words (pending_file st) ! ?k = []" by simp_all
    from h completed_run_reviews_all[OF _ _ _ k, of W ins ins' st'] e
    show "Submit ?k [] \<in> set (log st') \<and> Review ?k \<in> set (log st')" by simp
  qed
  have e: "main W ins st = (r, ins', st') \<and> new_words W = NEW_WORDS \<and> pending_file st = [] \<and>
    \<not> missing_id (deck_lookup W) \<and> \<not> missing_id (cloze_lookup W) \<and>
    \<not> missing_id (basic_lookup W) \<longrightarrow>
      Submit 0 [] \<in> set (log st') \<and>
      (llm W 0 BASIC_PROMPT_PATH [] \<noteq> None \<longrightarrow> Review 0 \<in> set (log st'))"
    using empty_file_run by blast
  from a b c d e show ?thesis by blast
qed

lemma demo_empty_file_run:
  "main demo_world [[]] (demo_state []) =
   (None, [],
    \<lparr>pending_file = [], done_file = [], skipped_file = [NL], collection = [],
     log = [Submit 0 [], Retrieve 0, Review 0, AppendSkipped [], RemovePending []]\<rparr>)"
  by (simp add: main_def missing_id_def new_words_constant_empty load_pending_words_def
      process_pending_def main_loop.simps request_flashcards_from_llm_def demo_world_def run_defs)

theorem blank_entries_are_pending_words_witness:
  "main demo_world [[]] (demo_state []) =
   (None, [],
    \<lparr>pending_file = [], done_file = [], skipped_file = [NL], collection = [],
     log = [Submit 0 [], Retrieve 0, Review 0, AppendSkipped [], RemovePending []]\<rparr>) \<and>
   load_pending_words (pending_file (demo_state [])) = [[]] \<and>
   Submit 0 (load_pending_words (pending_file (demo_state [])) ! 0) \<in>
     set [Submit 0 [], Retrieve 0, Review 0, AppendSkipped [], RemovePending []] \<and>
   Review 0 \<in> set [Submit 0 [], Retrieve 0, Review 0, AppendSkipped [], RemovePending []] \<and>
   NoWords \<notin> set [Submit 0 [], Retrieve 0, Review 0, AppendSkipped [], RemovePending []]"
proof -
  let ?st' = "\<lparr>pending_file = [], done_file = [], skipped_file = [NL], collection = [],
     log = [Submit 0 [], Retrieve 0, Review 0, AppendSkipped [], RemovePending []]\<rparr>"
  note inst = blank_entries_are_pending_words[of "[]" demo_world "[[]]" "demo_state []" None "[]" ?st']
  have nw: "new_words demo_world = NEW_WORDS" by (simp add: demo_world_def)
  have lg: "log (demo_state []) = []" "NoWords \<notin> set (log (demo_state []))"
    by (simp_all add: demo_state_def)
  have l: "load_pending_words (pending_file (demo_state [])) = [[]]"
    using inst by (simp add: demo_state_def)
  from inst demo_empty_file_run nw lg
  have c: "\<forall>i < length (load_pending_words (pending_file (demo_state []))).
         Submit i (load_pending_words (pending_file (demo_state [])) ! i) \<in> set (log ?st') \<and>
         Review i \<in> set (log ?st')"
    by blast
  from inst demo_empty_file_run lg have n: "NoWords \<notin> set (log ?st')" by blast
  from c l have "Submit 0 (load_pending_words (pending_file (demo_state [])) ! 0) \<in> set (log ?st') \<and>
     Review 0 \<in> set (log ?st')" by simp
  with n l demo_empty_file_run show ?thesis by simp
qed

section \<open>The run in which every word is skipped\<close>

lemma readlines_split_nl:
  "readlines s =
     map (\<lambda>w. w @ [NL]) (butlast (split_nl s)) @
     (if last (split_nl s) = [] then [] else [last (split_nl s)])"
proof (induction s)
  case Nil
  then show ?case by simp
next
  case (Cons c cs)
  obtain l ls where sp: "split_nl cs = l # ls"
    using split_nl_not_Nil[of cs] by (cases "split_nl cs") auto
  show ?case
  proof (cases "c = NL")
    case True
    with Cons sp show ?thesis by simp
  next
    case False
    with Cons sp show ?thesis by (cases ls) auto
  qed
qed

lemma py_strip_line: "py_strip (w @ [NL]) = py_strip w"
  by (simp add: py_strip_def py_rstrip_def py_isspace_def NL_def)

lemma readlines_words:
  assumes "l \<in> set (readlines s)"
  shows "py_strip l \<in> py_strip ` set (split_nl s)"
proof -
  let ?ws = "split_nl s"
  have ne: "?ws \<noteq> []" by (rule split_nl_not_Nil)
  from assms readlines_split_nl[of s]
  have "l \<in> (\<lambda>w. w @ [NL]) ` set (butlast ?ws) \<or> l = last ?ws"
    by (auto split: if_splits)
  then show ?thesis
  proof
    assume "l \<in> (\<lambda>w. w @ [NL]) ` set (butlast ?ws)"
    then obtain w where "w \<in> set (butlast ?ws)" "l = w @ [NL]" by blast
    then have "w \<in> set ?ws" "py_strip l = py_strip w"
      by (auto dest: in_set_butlastD simp: py_strip_line)
    then show ?thesis by blast
  next
    assume "l = last ?ws"
    with ne have "l \<in> set ?ws" by simp
    then show ?thesis by blast
  qed
qed

lemma readlines_fold_remove:
  "readlines (fold remove_word_from_pending ws s) =
     filter (\<lambda>line. py_strip line \<notin> set ws) (readlines s)"
proof (induction ws arbitrary: s)
  case Nil
  then show ?case by simp
next
  case (Cons w ws)
  have "readlines (fold remove_word_from_pending (w # ws) s) =
        filter (\<lambda>line. py_strip line \<notin> set ws) (readlines (remove_word_from_pending w s))"
    using Cons.IH by simp
  also have "\<dots> = filter (\<lambda>line. py_strip line \<notin> set ws)
                     (filter (\<lambda>line. py_strip line \<noteq> w) (readlines s))"
    by (simp add: readlines_remove)
  also have "\<dots> = filter (\<lambda>line. py_strip line \<notin> set (w # ws)) (readlines s)"
    by (auto intro: filter_cong)
  finally show ?case .
qed

lemma remove_all_trimmed_words:
  assumes "\<forall>w \<in> set (split_nl s). py_strip w = w"
  shows "fold remove_word_from_pending (split_nl s) s = []"
proof -
  have "py_strip l \<in> set (split_nl s)" if "l \<in> set (readlines s)" for l
    using readlines_words[OF that] assms by auto
  then have "filter (\<lambda>line. py_strip line \<notin> set (split_nl s)) (readlines s) = []"
    by (auto simp: filter_empty_conv)
  then have "readlines (fold remove_word_from_pending (split_nl s) s) = []"
    by (simp add: readlines_fold_remove)
  then have "concat (readlines (fold remove_word_from_pending (split_nl s) s)) = []" by simp
  then show ?thesis by (simp only: concat_readlines)
qed

lemma main_loop_all_skipped:
  assumes "\<forall>j < length ws. \<exists>flashcards. request_flashcards_from_llm W j (ws ! j) = Some (Some flashcards)"
    and "i < length ws \<longrightarrow> fut = request_flashcards_from_llm W i (ws ! i)"
  shows "\<exists>st'. main_loop W I ws i fut (replicate (length ws - i) []) st = (None, [], st') \<and>
           pending_file st' = fold remove_word_from_pending (drop i ws) (pending_file st) \<and>
           skipped_file st' = skipped_file st @ concat (map (\<lambda>w. w @ [NL]) (drop i ws)) \<and>
           done_file st' = done_file st \<and> collection st' = collection st"
  using assms(2)
proof (induction "length ws - i" arbitrary: i fut st)
  case 0
  then have "\<not> i < length ws" by simp
  then show ?case using 0 by (simp add: main_loop_done)
next
  case (Suc n)
  then have lt: "i < length ws" by simp
  with assms(1) Suc.prems obtain flashcards where fut: "fut = Some (Some flashcards)" by auto
  let ?st2 = "prefetch_state ws i st"
  let ?st3 = "?st2\<lparr>skipped_file := skipped_file ?st2 @ ws ! i @ [NL],
         pending_file := remove_word_from_pending (ws ! i) (pending_file ?st2),
         log := log ?st2 @ [AppendSkipped (ws ! i), RemovePending (ws ! i)]\<rparr>"
  have "length ws - i = Suc (length ws - (i + 1))" using lt by simp
  then have rep: "replicate (length ws - i) ([]::ustring) = [] # replicate (length ws - (i + 1)) []"
    by (simp only: replicate_Suc)
  have cr: "create_flashcard_interactively (digit_table W) I (ws ! i) (Some flashcards)
              ([] # replicate (length ws - (i + 1)) []) ?st2 =
            (None, replicate (length ws - (i + 1)) [], ?st3)"
    by (rule create_skip)
  have step: "main_loop W I ws i fut (replicate (length ws - i) []) st =
        main_loop W I ws (i + 1) (next_future W ws i fut) (replicate (length ws - (i + 1)) []) ?st3"
    using main_loop_step[OF lt cr] by (simp add: fut rep)
  have n: "n = length ws - (i + 1)" using Suc.hyps(2) by simp
  have nf: "i + 1 < length ws \<longrightarrow>
      next_future W ws i fut = request_flashcards_from_llm W (i + 1) (ws ! (i + 1))"
    by (simp add: next_future_def)
  from Suc.hyps(1)[OF n nf, of ?st3] obtain st' where
    run: "main_loop W I ws (i + 1) (next_future W ws i fut) (replicate (length ws - (i + 1)) []) ?st3 =
       (None, [], st')"
    and p: "pending_file st' = fold remove_word_from_pending (drop (i + 1) ws) (pending_file ?st3)"
    and s: "skipped_file st' = skipped_file ?st3 @ concat (map (\<lambda>w. w @ [NL]) (drop (i + 1) ws))"
    and d: "done_file st' = done_file ?st3" and c: "collection st' = collection ?st3"
    by blast
  have dr: "drop i ws = ws ! i # drop (i + 1) ws" using lt by (simp add: Cons_nth_drop_Suc)
  have files: "pending_file ?st2 = pending_file st" "skipped_file ?st2 = skipped_file st"
    "done_file ?st2 = done_file st" "collection ?st2 = collection st"
    by (simp_all add: prefetch_state_def emit_def)
  from p have p': "pending_file st' = fold remove_word_from_pending (drop i ws) (pending_file st)"
    by (simp add: dr files)
  from s have s': "skipped_file st' = skipped_file st @ concat (map (\<lambda>w. w @ [NL]) (drop i ws))"
    by (simp add: dr files)
  from d c have d': "done_file st' = done_file st" and c': "collection st' = collection st"
    by (simp_all add: files)
  have "main_loop W I ws i fut (replicate (length ws - i) []) st = (None, [], st')"
    using step run by (rule trans)
  with p' s' d' c' show ?case by blast
qed

text \<open>
  The end-to-end property for pending files in which no entry has leading or trailing
  whitespace: when the user skips every word and every request succeeds, the pending file
  ends empty, the skipped file has received every pending word once, in order, each as a
  line of its own, and the done file and the collection are unchanged.
\<close>

lemma all_skipped_run:
  assumes "new_words W = NEW_WORDS"
    and "\<not> missing_id (deck_lookup W)" "\<not> missing_id (cloze_lookup W)" "\<not> missing_id (basic_lookup W)"
    and "\<forall>w \<in> set (load_pending_words (pending_file st)). py_strip w = w"
    and "\<forall>j < length (load_pending_words (pending_file st)). \<exists>flashcards.
           request_flashcards_from_llm W j (load_pending_words (pending_file st) ! j) =
             Some (Some flashcards)"
  shows "\<exists>st'. main W (replicate (length (load_pending_words (pending_file st))) []) st = (None, [], st') \<and>
           pending_file st' = [] \<and>
           skipped_file st' =
             skipped_file st @ concat (map (\<lambda>w. w @ [NL]) (load_pending_words (pending_file st))) \<and>
           done_file st' = done_file st \<and> collection st' = collection st"
proof -
  let ?ws = "load_pending_words (pending_file st)"
  obtain w0 rest where ws: "?ws = w0 # rest"
    using split_nl_not_Nil[of "pending_file st"] by (cases ?ws) (auto simp: load_pending_words_def)
  let ?st0 = "emit (Submit 0 w0) st"
  have m: "main W (replicate (length ?ws) []) st =
           main_loop W (run_ids W) ?ws 0 (request_flashcards_from_llm W 0 w0)
             (replicate (length ?ws - 0) []) ?st0"
    using main_no_new_words[OF assms(1-4)] ws by (simp add: process_pending_def)
  have f0: "0 < length ?ws \<longrightarrow>
      request_flashcards_from_llm W 0 w0 = request_flashcards_from_llm W 0 (?ws ! 0)"
    using ws by simp
  from main_loop_all_skipped[OF assms(6) f0, of "run_ids W" ?st0] obtain st' where
    run: "main_loop W (run_ids W) ?ws 0 (request_flashcards_from_llm W 0 w0)
             (replicate (length ?ws - 0) []) ?st0 = (None, [], st')"
    and p: "pending_file st' = fold remove_word_from_pending (drop 0 ?ws) (pending_file ?st0)"
    and s: "skipped_file st' = skipped_file ?st0 @ concat (map (\<lambda>w. w @ [NL]) (drop 0 ?ws))"
    and d: "done_file st' = done_file ?st0" "collection st' = collection ?st0"
    by blast
  have "fold remove_word_from_pending (split_nl (pending_file st)) (pending_file st) = []"
    using assms(5) by (intro remove_all_trimmed_words) (simp add: load_pending_words_def)
  with p have "pending_file st' = []" by (simp add: emit_def load_pending_words_def)
  moreover from s have "skipped_file st' = skipped_file st @ concat (map (\<lambda>w. w @ [NL]) ?ws)"
    by (simp add: emit_def)
  moreover from d have "done_file st' = done_file st" "collection st' = collection st"
    by (simp_all add: emit_def)
  ultimately show ?thesis using m run by simp
qed

text \<open>
  C9. A pending file with the two lines \<open>"a "\<close> (the word \<open>a\<close> followed by a space) and
  \<open>"b"\<close>, each ended by a newline, holds three pending words: \<open>"a "\<close>, \<open>"b"\<close> and the empty
  word. In the run in which the user skips all three, the skipped file receives the three
  words and the done file and the collection stay as they were, but the pending file is
  not empty at the end: the line \<open>"a "\<close> is still there, because the removal compares the
  trimmed line \<open>"a"\<close> with the untrimmed word \<open>"a "\<close>.
\<close>

theorem padded_word_stays_pending:
  "load_pending_words (ustr ''a '' @ [NL] @ ustr ''b'' @ [NL]) = [ustr ''a '', ustr ''b'', []] \<and>
   main demo_world [[], [], []] (demo_state (ustr ''a '' @ [NL] @ ustr ''b'' @ [NL])) =
   (None, [],
    \<lparr>pending_file = ustr ''a '' @ [NL], done_file = [],
     skipped_file = ustr ''a '' @ [NL] @ ustr ''b'' @ [NL] @ [NL], collection = [],
     log = [Submit 0 (ustr ''a ''), Retrieve 0, Submit 1 (ustr ''b''), Review 0,
            AppendSkipped (ustr ''a ''), RemovePending (ustr ''a ''),
            Retrieve 1, Submit 2 [], Review 1,
            AppendSkipped (ustr ''b''), RemovePending (ustr ''b''),
            Retrieve 2, Review 2, AppendSkipped [], RemovePending []]\<rparr>)"
  by (simp add: main_def missing_id_def new_words_constant_empty load_pending_words_def
      process_pending_def main_loop.simps request_flashcards_from_llm_def demo_world_def run_defs)

end
